theory Spec2Isabelle
  imports Main "HOL-Library.AList" "HOL-Library.Extended_Nat"
begin

section \<open>The crossword CSP solver of generate.py\<close>

text \<open>
  A shallow embedding of the class \<open>CrosswordCreator\<close> of
  \<open>CS50AI/crossword/generate.py\<close>: node consistency, \<open>revise\<close>, \<open>ac3\<close>,
  the heuristics and the backtracking search.

  Python values are represented as follows.
  \<^item> A \<open>set\<close> of words or of variables is a list without duplicates; a \<open>for\<close> loop
    over the set visits the list from left to right, \<open>s.remove(e)\<close> raises
    \<open>KeyError\<close> when \<open>e\<close> is absent.
  \<^item> A \<open>dict\<close> is an association list in insertion order; \<open>d[k]\<close> raises
    \<open>KeyError\<close> on a missing key, \<open>d[k] = v\<close> keeps the position of an existing key.
  \<^item> \<open>self.domains\<close> and the \<open>assignment\<close> dictionary are mutated in place by the
    source; the model passes them explicitly and returns the updated values.
  \<^item> Every exception is a value \<open>Inl e\<close> of the result.
\<close>

subsection \<open>Python errors, sets and dictionaries\<close>

datatype py_error = KeyError | IndexError | TypeError | UnboundLocalError

text \<open>\<open>w[n]\<close> on a string, for a non-negative index.\<close>

definition char_at :: "string \<Rightarrow> nat \<Rightarrow> py_error + char" where
  "char_at w n = (if n < length w then Inr (w ! n) else Inl IndexError)"

text \<open>\<open>s.remove(e)\<close> on a set.\<close>

definition set_remove :: "'a \<Rightarrow> 'a list \<Rightarrow> py_error + 'a list" where
  "set_remove e s = (if e \<in> set s then Inr (removeAll e s) else Inl KeyError)"

text \<open>\<open>d[k]\<close> and \<open>d[k] = v\<close> on a dictionary.\<close>

definition dict_get :: "('k \<times> 'v) list \<Rightarrow> 'k \<Rightarrow> py_error + 'v" where
  "dict_get d k = (case map_of d k of None \<Rightarrow> Inl KeyError | Some v \<Rightarrow> Inr v)"

definition dict_set :: "('k \<times> 'v) list \<Rightarrow> 'k \<Rightarrow> 'v \<Rightarrow> ('k \<times> 'v) list" where
  "dict_set d k v = AList.update k v d"

subsection \<open>The puzzle model\<close>

datatype direction = ACROSS | DOWN

text \<open>
  \<open>Variable(i, j, direction, length)\<close>: equality and hashing are those of the tuple
  of the four fields, which is the equality of this datatype.
\<close>

datatype Variable = Variable (var_i: nat) (var_j: nat) (var_direction: direction) (var_length: nat)

text \<open>
  The class \<open>Crossword\<close> lives in the module \<open>crossword\<close>, which is not part
  of the sources at hand. The solver reads three attributes of it, which are the
  parameters of the model: the set of variables, the vocabulary, and the overlap table.
  \<open>overlaps cw x y\<close> is \<open>None\<close> when \<open>x\<close> and \<open>y\<close> share no cell, and
  \<open>Some (ix, iy)\<close> when character \<open>ix\<close> of \<open>x\<close> is character \<open>iy\<close> of \<open>y\<close>.
\<close>

record Crossword =
  variables :: "Variable list"
  words :: "string list"
  overlaps :: "Variable \<Rightarrow> Variable \<Rightarrow> (nat \<times> nat) option"

text \<open>
  Modelled from the spec: \<open>Crossword.neighbors\<close> is missing from the sources; the
  specification gives \<open>neighbors(variable)\<close> as the set of all variables sharing a cell
  with it, that is, all other variables with an entry in the overlap map.
\<close>

definition neighbors :: "Crossword \<Rightarrow> Variable \<Rightarrow> Variable list" where
  "neighbors cw var = filter (\<lambda>v. v \<noteq> var \<and> overlaps cw v var \<noteq> None) (variables cw)"

text \<open>
  What the puzzle model guarantees of its output: the variables are a set, the overlap
  map is symmetric with the two offsets swapped, and every offset lies inside its slot.
\<close>

definition wf_crossword :: "Crossword \<Rightarrow> bool" where
  "wf_crossword cw \<longleftrightarrow>
     distinct (variables cw) \<and> distinct (words cw) \<and>
     (\<forall>x \<in> set (variables cw). \<forall>y \<in> set (variables cw).
        (case overlaps cw x y of
           None \<Rightarrow> overlaps cw y x = None
         | Some (ix, iy) \<Rightarrow>
             overlaps cw y x = Some (iy, ix) \<and> ix < var_length x \<and> iy < var_length y))"

subsection \<open>The domain store\<close>

type_synonym domains = "(Variable \<times> string list) list"
type_synonym assignment = "(Variable \<times> string option) list"
type_synonym arc = "Variable \<times> Variable"

text \<open>\<open>__init__\<close>: every variable starts with a copy of the whole vocabulary.\<close>

definition init_domains :: "Crossword \<Rightarrow> domains" where
  "init_domains cw = map (\<lambda>var. (var, words cw)) (variables cw)"

subsection \<open>Node consistency\<close>

text \<open>The inner loop of \<open>enforce_node_consistency\<close>, over the words of one domain.\<close>

fun node_consistent_loop :: "Variable \<Rightarrow> string list \<Rightarrow> string list \<Rightarrow> py_error + string list" where
  "node_consistent_loop var [] node_consistent = Inr node_consistent"
| "node_consistent_loop var (word # rest) node_consistent =
     (if length word \<noteq> var_length var
      then (case set_remove word node_consistent of
              Inl e \<Rightarrow> Inl e
            | Inr nc \<Rightarrow> node_consistent_loop var rest nc)
      else node_consistent_loop var rest node_consistent)"

text \<open>The outer loop, over the keys of \<open>self.domains\<close>.\<close>

fun enforce_node_consistency_loop :: "Variable list \<Rightarrow> domains \<Rightarrow> py_error + domains" where
  "enforce_node_consistency_loop [] doms = Inr doms"
| "enforce_node_consistency_loop (var # rest) doms =
     (case dict_get doms var of
        Inl e \<Rightarrow> Inl e
      | Inr dv \<Rightarrow>
          (case node_consistent_loop var dv dv of
             Inl e \<Rightarrow> Inl e
           | Inr nc \<Rightarrow> enforce_node_consistency_loop rest (dict_set doms var nc)))"

definition enforce_node_consistency :: "domains \<Rightarrow> py_error + domains" where
  "enforce_node_consistency doms = enforce_node_consistency_loop (map fst doms) doms"

subsection \<open>Arc revision\<close>

text \<open>
  The test \<open>x_word[overlap[0]] == y_word[overlap[1]] and x_word != y_word\<close>.
  Subscripting \<open>overlap\<close> raises \<open>TypeError\<close> when the table holds \<open>None\<close>.
\<close>

definition words_agree :: "(nat \<times> nat) option \<Rightarrow> string \<Rightarrow> string \<Rightarrow> py_error + bool" where
  "words_agree overlap x_word y_word =
     (case overlap of
        None \<Rightarrow> Inl TypeError
      | Some (ix, iy) \<Rightarrow>
          (case char_at x_word ix of
             Inl e \<Rightarrow> Inl e
           | Inr cx \<Rightarrow>
               (case char_at y_word iy of
                  Inl e \<Rightarrow> Inl e
                | Inr cy \<Rightarrow> Inr (cx = cy \<and> x_word \<noteq> y_word))))"

text \<open>The inner loop of \<open>revise\<close>: counts the words of \<open>y\<close> compatible with \<open>x_word\<close>.\<close>

fun revise_options :: "(nat \<times> nat) option \<Rightarrow> string \<Rightarrow> string list \<Rightarrow> nat \<Rightarrow> py_error + nat" where
  "revise_options overlap x_word [] options = Inr options"
| "revise_options overlap x_word (y_word # rest) options =
     (case words_agree overlap x_word y_word of
        Inl e \<Rightarrow> Inl e
      | Inr ok \<Rightarrow> revise_options overlap x_word rest (if ok then options + 1 else options))"

text \<open>The outer loop of \<open>revise\<close>: the state is the copy \<open>xDomCpy\<close> and the flag.\<close>

fun revise_loop :: "(nat \<times> nat) option \<Rightarrow> domains \<Rightarrow> Variable \<Rightarrow> string list \<Rightarrow>
    string list \<times> bool \<Rightarrow> py_error + (string list \<times> bool)" where
  "revise_loop overlap doms y [] st = Inr st"
| "revise_loop overlap doms y (x_word # rest) (xDomCpy, revised) =
     (case dict_get doms y of
        Inl e \<Rightarrow> Inl e
      | Inr dy \<Rightarrow>
          (case revise_options overlap x_word dy 0 of
             Inl e \<Rightarrow> Inl e
           | Inr options \<Rightarrow>
               if options = 0
               then (case set_remove x_word xDomCpy of
                       Inl e \<Rightarrow> Inl e
                     | Inr cpy \<Rightarrow> revise_loop overlap doms y rest (cpy, True))
               else revise_loop overlap doms y rest (xDomCpy, revised)))"

definition revise :: "Crossword \<Rightarrow> domains \<Rightarrow> Variable \<Rightarrow> Variable \<Rightarrow> py_error + (domains \<times> bool)" where
  "revise cw doms x y =
     (case dict_get doms x of
        Inl e \<Rightarrow> Inl e
      | Inr dx \<Rightarrow>
          (case revise_loop (overlaps cw x y) doms y dx (dx, False) of
             Inl e \<Rightarrow> Inl e
           | Inr (xDomCpy, revised) \<Rightarrow> Inr (dict_set doms x xDomCpy, revised)))"

subsection \<open>AC-3\<close>

text \<open>The initial list of arcs when \<open>arcs\<close> is \<open>None\<close>.\<close>

definition all_arcs :: "Crossword \<Rightarrow> domains \<Rightarrow> arc list" where
  "all_arcs cw doms = concat (map (\<lambda>x. map (\<lambda>y. (x, y)) (neighbors cw x)) (map fst doms))"

definition dom_size :: "domains \<Rightarrow> nat" where
  "dom_size doms = sum_list (map (\<lambda>p. length (snd p)) doms)"

text \<open>
  The \<open>while\<close> loop of \<open>ac3\<close>. The list \<open>arcs\<close> is the Python list:
  \<open>arcs.pop()\<close> takes its last element, \<open>arcs.append\<close> adds at the end.
\<close>

function ac3_loop :: "Crossword \<Rightarrow> domains \<Rightarrow> arc list \<Rightarrow> py_error + (domains \<times> bool)" where
  "ac3_loop cw doms arcs =
     (if length arcs > 0
      then (case revise cw doms (fst (last arcs)) (snd (last arcs)) of
              Inl e \<Rightarrow> Inl e
            | Inr (doms', revised) \<Rightarrow>
                if revised
                then (case dict_get doms' (fst (last arcs)) of
                        Inl e \<Rightarrow> Inl e
                      | Inr dx \<Rightarrow>
                          if length dx = 0 then Inr (doms', False)
                          else (case set_remove (snd (last arcs)) (neighbors cw (fst (last arcs))) of
                                  Inl e \<Rightarrow> Inl e
                                | Inr x_neighbours_no_y \<Rightarrow>
                                    ac3_loop cw doms'
                                      (butlast arcs @ map (\<lambda>z. (z, fst (last arcs))) x_neighbours_no_y)))
                else ac3_loop cw doms' (butlast arcs))
      else Inr (doms, True))"
  by pat_completeness auto

lemma set_remove_length:
  "set_remove e s = Inr s' \<Longrightarrow> length s' < length s"
  by (auto simp: set_remove_def split: if_splits intro: length_removeAll_less)

lemma revise_loop_length:
  "revise_loop overlap doms y ws (cpy, r) = Inr (cpy', r') \<Longrightarrow>
     length cpy' \<le> length cpy \<and> (r' \<and> \<not> r \<longrightarrow> length cpy' < length cpy)"
proof (induction ws arbitrary: cpy r)
  case Nil
  then show ?case by simp
next
  case (Cons w ws)
  then show ?case
    by (fastforce split: sum.splits if_splits dest: set_remove_length)
qed

lemma dom_size_update:
  "map_of d k = Some old \<Longrightarrow> dom_size (AList.update k v d) + length old = dom_size d + length v"
  by (induction d) (auto simp: dom_size_def)

lemma revise_dom_size:
  assumes "revise cw doms x y = Inr (doms', revised)"
  shows "dom_size doms' \<le> dom_size doms \<and> (revised \<longrightarrow> dom_size doms' < dom_size doms)"
proof -
  from assms obtain dx cpy where dx: "map_of doms x = Some dx"
    and loop: "revise_loop (overlaps cw x y) doms y dx (dx, False) = Inr (cpy, revised)"
    and d': "doms' = AList.update x cpy doms"
    by (auto simp: revise_def dict_get_def dict_set_def split: option.splits sum.splits)
  from revise_loop_length[OF loop]
  have "length cpy \<le> length dx" and "revised \<longrightarrow> length cpy < length dx" by auto
  with dom_size_update[OF dx, of cpy] d' show ?thesis by auto
qed

termination ac3_loop
proof (relation "inv_image (less_than <*lex*> less_than) (\<lambda>(cw, doms, arcs). (dom_size doms, length arcs))", goal_cases)
  case 1
  show ?case by (intro wf_inv_image wf_lex_prod wf_less_than)
next
  case (2 cw doms arcs x2 doms' revised dx ns)
  then show ?case
    using revise_dom_size[of cw doms "fst (last arcs)" "snd (last arcs)" doms' revised] by auto
next
  case (3 cw doms arcs x2 doms' revised)
  then show ?case
    using revise_dom_size[of cw doms "fst (last arcs)" "snd (last arcs)" doms' revised]
    by (cases arcs rule: rev_cases) auto
qed

declare ac3_loop.simps [simp del]

text \<open>\<open>ac3\<close>: \<open>arcs\<close> is \<open>None\<close> by default.\<close>

definition ac3 :: "Crossword \<Rightarrow> domains \<Rightarrow> arc list option \<Rightarrow> py_error + (domains \<times> bool)" where
  "ac3 cw doms arcs =
     ac3_loop cw doms (case arcs of None \<Rightarrow> all_arcs cw doms | Some as \<Rightarrow> as)"

subsection \<open>Assignments\<close>

text \<open>
  \<open>assignment_complete\<close>: the loop over the keys returns false at the first key that
  holds \<open>None\<close>.
\<close>

definition assignment_complete :: "assignment \<Rightarrow> bool" where
  "assignment_complete asg = list_all (\<lambda>p. snd p \<noteq> None) asg"

text \<open>
  The test \<open>x_word[overlap[0]] != y_word[overlap[1]] or x_word == y_word\<close> of
  \<open>consistent\<close> and \<open>order_domain_values\<close>.
\<close>

definition words_conflict :: "(nat \<times> nat) option \<Rightarrow> string \<Rightarrow> string \<Rightarrow> py_error + bool" where
  "words_conflict overlap x_word y_word =
     (case overlap of
        None \<Rightarrow> Inl TypeError
      | Some (ix, iy) \<Rightarrow>
          (case char_at x_word ix of
             Inl e \<Rightarrow> Inl e
           | Inr cx \<Rightarrow>
               (case char_at y_word iy of
                  Inl e \<Rightarrow> Inl e
                | Inr cy \<Rightarrow> Inr (cx \<noteq> cy \<or> x_word = y_word))))"

text \<open>
  The inner loop of \<open>consistent\<close> over the neighbours of an assigned \<open>x\<close>;
  \<open>Inr False\<close> is the early \<open>return False\<close>.
\<close>

fun consistent_neighbors :: "Crossword \<Rightarrow> assignment \<Rightarrow> Variable \<Rightarrow> string \<Rightarrow> Variable list \<Rightarrow>
    py_error + bool" where
  "consistent_neighbors cw asg x x_word [] = Inr True"
| "consistent_neighbors cw asg x x_word (y # rest) =
     (case dict_get asg y of
        Inl e \<Rightarrow> Inl e
      | Inr None \<Rightarrow> consistent_neighbors cw asg x x_word rest
      | Inr (Some y_word) \<Rightarrow>
          (case words_conflict (overlaps cw x y) x_word y_word of
             Inl e \<Rightarrow> Inl e
           | Inr bad \<Rightarrow> if bad then Inr False else consistent_neighbors cw asg x x_word rest))"

fun consistent_loop :: "Crossword \<Rightarrow> assignment \<Rightarrow> Variable list \<Rightarrow> py_error + bool" where
  "consistent_loop cw asg [] = Inr True"
| "consistent_loop cw asg (x # rest) =
     (case dict_get asg x of
        Inl e \<Rightarrow> Inl e
      | Inr None \<Rightarrow> consistent_loop cw asg rest
      | Inr (Some x_word) \<Rightarrow>
          (case consistent_neighbors cw asg x x_word (neighbors cw x) of
             Inl e \<Rightarrow> Inl e
           | Inr ok \<Rightarrow> if ok then consistent_loop cw asg rest else Inr False))"

definition consistent :: "Crossword \<Rightarrow> assignment \<Rightarrow> py_error + bool" where
  "consistent cw asg = consistent_loop cw asg (map fst asg)"

subsection \<open>Value ordering\<close>

text \<open>The innermost loop of \<open>order_domain_values\<close>, over the words of one neighbour.\<close>

fun odv_words :: "(nat \<times> nat) option \<Rightarrow> string \<Rightarrow> string list \<Rightarrow> nat \<Rightarrow> py_error + nat" where
  "odv_words overlap word [] options_removed = Inr options_removed"
| "odv_words overlap word (word_neighbour # rest) options_removed =
     (case words_conflict overlap word word_neighbour of
        Inl e \<Rightarrow> Inl e
      | Inr bad \<Rightarrow> odv_words overlap word rest (if bad then options_removed + 1 else options_removed))"

text \<open>The loop over the neighbours of \<open>var\<close>.\<close>

fun odv_neighbors :: "Crossword \<Rightarrow> domains \<Rightarrow> Variable \<Rightarrow> string \<Rightarrow> Variable list \<Rightarrow> nat \<Rightarrow>
    py_error + nat" where
  "odv_neighbors cw doms var word [] options_removed = Inr options_removed"
| "odv_neighbors cw doms var word (var_neighbour # rest) options_removed =
     (case dict_get doms var_neighbour of
        Inl e \<Rightarrow> Inl e
      | Inr dn \<Rightarrow>
          (case odv_words (overlaps cw var var_neighbour) word dn options_removed of
             Inl e \<Rightarrow> Inl e
           | Inr n \<Rightarrow> odv_neighbors cw doms var word rest n))"

text \<open>The loop over the words of \<open>var\<close>, filling \<open>sorted_domain_dict\<close> in domain order.\<close>

fun odv_counts :: "Crossword \<Rightarrow> domains \<Rightarrow> Variable \<Rightarrow> string list \<Rightarrow> py_error + (string \<times> nat) list" where
  "odv_counts cw doms var [] = Inr []"
| "odv_counts cw doms var (word # rest) =
     (case odv_neighbors cw doms var word (neighbors cw var) 0 of
        Inl e \<Rightarrow> Inl e
      | Inr n \<Rightarrow>
          (case odv_counts cw doms var rest of
             Inl e \<Rightarrow> Inl e
           | Inr cs \<Rightarrow> Inr ((word, n) # cs)))"

text \<open>
  \<open>order_domain_values\<close>; the source does not read its argument \<open>assignment\<close>.
  \<open>sorted\<close> is stable, as \<open>sort_key\<close> is.
\<close>

definition order_domain_values :: "Crossword \<Rightarrow> domains \<Rightarrow> Variable \<Rightarrow> py_error + string list" where
  "order_domain_values cw doms var =
     (case dict_get doms var of
        Inl e \<Rightarrow> Inl e
      | Inr dv \<Rightarrow>
          (case odv_counts cw doms var dv of
             Inl e \<Rightarrow> Inl e
           | Inr sorted_domain_dict \<Rightarrow> Inr (map fst (sort_key snd sorted_domain_dict))))"

subsection \<open>Variable selection\<close>

text \<open>
  The loop of \<open>select_unassigned_variable\<close>. Its state is \<open>min_dom_vals\<close>, which
  starts as \<open>float("inf")\<close>, and \<open>selected_var\<close>, which is unbound (\<open>None\<close>) until
  the first assignment to it.
\<close>

fun select_loop :: "Crossword \<Rightarrow> domains \<Rightarrow> assignment \<Rightarrow> Variable list \<Rightarrow> enat \<times> Variable option \<Rightarrow>
    py_error + (enat \<times> Variable option)" where
  "select_loop cw doms asg [] st = Inr st"
| "select_loop cw doms asg (var # rest) (min_dom_vals, selected_var) =
     (case dict_get asg var of
        Inl e \<Rightarrow> Inl e
      | Inr (Some w) \<Rightarrow> select_loop cw doms asg rest (min_dom_vals, selected_var)
      | Inr None \<Rightarrow>
          (case dict_get doms var of
             Inl e \<Rightarrow> Inl e
           | Inr dv \<Rightarrow>
               if enat (length dv) < min_dom_vals
               then select_loop cw doms asg rest (enat (length dv), Some var)
               else if enat (length dv) = min_dom_vals
               then (case selected_var of
                       None \<Rightarrow> Inl UnboundLocalError
                     | Some s \<Rightarrow>
                         if length (neighbors cw var) > length (neighbors cw s)
                         then select_loop cw doms asg rest (enat (length dv), Some var)
                         else select_loop cw doms asg rest (min_dom_vals, selected_var))
               else select_loop cw doms asg rest (min_dom_vals, selected_var)))"

definition select_unassigned_variable :: "Crossword \<Rightarrow> domains \<Rightarrow> assignment \<Rightarrow> py_error + Variable" where
  "select_unassigned_variable cw doms asg =
     (case select_loop cw doms asg (map fst asg) (\<infinity>, None) of
        Inl e \<Rightarrow> Inl e
      | Inr (min_dom_vals, selected_var) \<Rightarrow>
          (case selected_var of None \<Rightarrow> Inl UnboundLocalError | Some s \<Rightarrow> Inr s))"

subsection \<open>Backtracking search\<close>

text \<open>
  \<open>self.domains[var].pop()\<close> is only ever called on a set of exactly one word: it
  returns that word and leaves the set empty.

  The loop at the root of the search, which assigns every variable whose domain has
  one word.
\<close>

fun root_loop :: "Variable list \<Rightarrow> domains \<Rightarrow> assignment \<Rightarrow> py_error + (domains \<times> assignment)" where
  "root_loop [] doms asg = Inr (doms, asg)"
| "root_loop (var # rest) doms asg =
     (case dict_get doms var of
        Inl e \<Rightarrow> Inl e
      | Inr dv \<Rightarrow>
          (case dv of
             [w] \<Rightarrow> root_loop rest (dict_set doms var []) (dict_set asg var (Some w))
           | _ \<Rightarrow> root_loop rest doms asg))"

text \<open>The loop after a successful propagation, over the keys \<open>var_chk\<close>.\<close>

fun inference_loop :: "Variable list \<Rightarrow> domains \<Rightarrow> assignment \<Rightarrow> py_error + (domains \<times> assignment)" where
  "inference_loop [] doms asg = Inr (doms, asg)"
| "inference_loop (var_chk # rest) doms asg =
     (case dict_get asg var_chk of
        Inl e \<Rightarrow> Inl e
      | Inr (Some w) \<Rightarrow> inference_loop rest doms asg
      | Inr None \<Rightarrow>
          (case dict_get doms var_chk of
             Inl e \<Rightarrow> Inl e
           | Inr dv \<Rightarrow>
               (case dv of
                  [w] \<Rightarrow> inference_loop rest (dict_set doms var_chk []) (dict_set asg var_chk (Some w))
                | _ \<Rightarrow> inference_loop rest doms asg)))"

text \<open>\<open>self.domains[var].remove(value)\<close>, the last statement of the candidate loop.\<close>

definition remove_value :: "domains \<Rightarrow> Variable \<Rightarrow> string \<Rightarrow> py_error + domains" where
  "remove_value doms var value =
     (case dict_get doms var of
        Inl e \<Rightarrow> Inl e
      | Inr dv \<Rightarrow>
          (case set_remove value dv of
             Inl e \<Rightarrow> Inl e
           | Inr dv' \<Rightarrow> Inr (dict_set doms var dv')))"

text \<open>
  The result of a call of \<open>backtrack\<close>: an exception, or the returned value (an
  assignment or \<open>None\<close>) together with the domains and the assignment dictionary as the
  call leaves them. The recursion of \<open>backtrack\<close> is bounded by a counter, and
  \<open>OutOfFuel\<close> is the result when the counter is used up.
\<close>

datatype 'a result = Raised py_error | OutOfFuel | Returned 'a

type_synonym search_state = "domains \<times> assignment"

fun backtrack :: "nat \<Rightarrow> Crossword \<Rightarrow> domains \<Rightarrow> assignment \<Rightarrow> (search_state \<times> assignment option) result"
and backtrack_loop :: "nat \<Rightarrow> Crossword \<Rightarrow> Variable \<Rightarrow> string list \<Rightarrow> domains \<Rightarrow> assignment \<Rightarrow>
    (search_state \<times> assignment option) result" where
  "backtrack 0 cw doms assignment = OutOfFuel"
| "backtrack (Suc n) cw doms assignment =
     (case (if assignment = []
            then root_loop (variables cw) doms (map (\<lambda>var. (var, None)) (variables cw))
            else Inr (doms, assignment)) of
        Inl e \<Rightarrow> Raised e
      | Inr (doms1, asg1) \<Rightarrow>
          if assignment_complete asg1 then Returned ((doms1, asg1), Some asg1)
          else (case select_unassigned_variable cw doms1 asg1 of
                  Inl e \<Rightarrow> Raised e
                | Inr var \<Rightarrow>
                    (case order_domain_values cw doms1 var of
                       Inl e \<Rightarrow> Raised e
                     | Inr vals \<Rightarrow> backtrack_loop n cw var vals doms1 asg1)))"
| "backtrack_loop n cw var [] doms asg = Returned ((doms, asg), None)"
| "backtrack_loop n cw var (value # rest) doms asg =
     (case consistent cw (dict_set asg var (Some value)) of
        Inl e \<Rightarrow> Raised e
      | Inr ok \<Rightarrow>
          if ok
          then (case ac3 cw doms (Some (map (\<lambda>y. (y, var)) (neighbors cw var))) of
                  Inl e \<Rightarrow> Raised e
                | Inr (doms1, inferences) \<Rightarrow>
                    (case (if inferences
                           then inference_loop (map fst (dict_set asg var (Some value))) doms1
                                  (dict_set asg var (Some value))
                           else Inr (doms1, dict_set asg var (Some value))) of
                       Inl e \<Rightarrow> Raised e
                     | Inr (doms2, asg2) \<Rightarrow>
                         (case backtrack n cw doms2 asg2 of
                            Raised e \<Rightarrow> Raised e
                          | OutOfFuel \<Rightarrow> OutOfFuel
                          | Returned (st3, Some res) \<Rightarrow> Returned (st3, Some res)
                          | Returned ((doms3, asg3), None) \<Rightarrow>
                              (case remove_value doms3 var value of
                                 Inl e \<Rightarrow> Raised e
                               | Inr doms4 \<Rightarrow> backtrack_loop n cw var rest doms4 asg3))))
          else (case remove_value doms var value of
                  Inl e \<Rightarrow> Raised e
                | Inr doms' \<Rightarrow> backtrack_loop n cw var rest doms' asg))"

text \<open>
  \<open>solve\<close>. The result of \<open>ac3\<close> is dropped. Every recursive call of \<open>backtrack\<close>
  follows the assignment of a variable that was unassigned, so the depth of the recursion
  is at most the number of variables plus one; the lemma \<open>solve_fuel_suffices\<close> below
  shows that \<open>solve\<close> never uses the counter up.
\<close>

definition solve :: "Crossword \<Rightarrow> (search_state \<times> assignment option) result" where
  "solve cw =
     (case enforce_node_consistency (init_domains cw) of
        Inl e \<Rightarrow> Raised e
      | Inr doms \<Rightarrow>
          (case ac3 cw doms None of
             Inl e \<Rightarrow> Raised e
           | Inr (doms', b) \<Rightarrow> backtrack (Suc (length (variables cw))) cw doms' []))"

subsection \<open>Example puzzles\<close>

text \<open>
  A grid of seven rows and five columns with four slots in a chain: \<open>slot_U\<close> (across,
  two cells) crosses \<open>slot_X\<close> (down, three cells), which crosses \<open>slot_Y\<close> (across,
  four cells), which crosses \<open>slot_Z\<close> (down, five cells).
  \<^verbatim>\<open>
  __###
  #_###
  #____
  ####_
  ####_
  ####_
  ####_
  \<close>
\<close>

definition slot_U :: Variable where "slot_U = Variable 0 0 ACROSS 2"
definition slot_X :: Variable where "slot_X = Variable 0 1 DOWN 3"
definition slot_Y :: Variable where "slot_Y = Variable 2 1 ACROSS 4"
definition slot_Z :: Variable where "slot_Z = Variable 2 4 DOWN 5"

definition chain_overlaps :: "Variable \<Rightarrow> Variable \<Rightarrow> (nat \<times> nat) option" where
  "chain_overlaps a b =
     (if a = slot_U \<and> b = slot_X then Some (1, 0)
      else if a = slot_X \<and> b = slot_U then Some (0, 1)
      else if a = slot_X \<and> b = slot_Y then Some (2, 0)
      else if a = slot_Y \<and> b = slot_X then Some (0, 2)
      else if a = slot_Y \<and> b = slot_Z then Some (3, 0)
      else if a = slot_Z \<and> b = slot_Y then Some (0, 3)
      else None)"

definition chain_puzzle :: Crossword where
  "chain_puzzle =
     \<lparr> variables = [slot_U, slot_X, slot_Y, slot_Z],
       words = [''MA'', ''OB'', ''ACT'', ''ANT'', ''BAD'', ''TREE'', ''DARK'', ''DESK'', ''DUCK'',
                ''KNIFE'', ''EAGLE''],
       overlaps = chain_overlaps \<rparr>"

text \<open>The same grid with one more word of four letters.\<close>

definition chain_puzzle_time :: Crossword where
  "chain_puzzle_time =
     \<lparr> variables = [slot_U, slot_X, slot_Y, slot_Z],
       words = [''MA'', ''OB'', ''ACT'', ''ANT'', ''BAD'', ''TREE'', ''TIME'', ''DARK'', ''DESK'',
                ''DUCK'', ''KNIFE'', ''EAGLE''],
       overlaps = chain_overlaps \<rparr>"

text \<open>
  The domains of \<open>chain_puzzle\<close> in the middle of a propagation: \<open>slot_Y\<close> has just
  been reduced to one word.
\<close>

definition chain_domains :: domains where
  "chain_domains =
     [(slot_U, [''MA'', ''OB'']), (slot_X, [''ACT'', ''ANT'']), (slot_Y, [''TREE'']),
      (slot_Z, [''KNIFE'', ''EAGLE''])]"

text \<open>A partial assignment of \<open>chain_puzzle\<close>: the two outer slots are filled.\<close>

definition chain_assignment :: assignment where
  "chain_assignment =
     [(slot_U, Some ''MA''), (slot_X, None), (slot_Y, None), (slot_Z, Some ''KNIFE'')]"

text \<open>The domains of \<open>chain_puzzle\<close> after node and arc consistency.\<close>

definition chain_start_domains :: domains where
  "chain_start_domains =
     [(slot_U, [''MA'', ''OB'']), (slot_X, [''ACT'', ''ANT'', ''BAD'']),
      (slot_Y, [''TREE'', ''DARK'', ''DESK'', ''DUCK'']), (slot_Z, [''KNIFE'', ''EAGLE''])]"

text \<open>
  The domains of \<open>chain_puzzle\<close> and of \<open>chain_puzzle_time\<close> once the candidate
  \<open>BAD\<close> of \<open>slot_X\<close> has been tried and removed.
\<close>

definition chain_pruned_domains :: domains where
  "chain_pruned_domains =
     [(slot_U, [''MA'', ''OB'']), (slot_X, [''ACT'', ''ANT'']),
      (slot_Y, [''TREE'', ''DARK'', ''DESK'', ''DUCK'']), (slot_Z, [''KNIFE'', ''EAGLE''])]"

definition chain_time_pruned_domains :: domains where
  "chain_time_pruned_domains =
     [(slot_U, [''MA'', ''OB'']), (slot_X, [''ACT'', ''ANT'']),
      (slot_Y, [''TREE'', ''TIME'', ''DARK'', ''DESK'', ''DUCK'']), (slot_Z, [''KNIFE'', ''EAGLE''])]"

text \<open>
  Two crossing slots of three cells: the second letter of \<open>slot_A\<close> (across) is the
  first letter of \<open>slot_B\<close> (down).
  \<^verbatim>\<open>
  ___
  #_#
  #_#
  \<close>
\<close>

definition slot_A :: Variable where "slot_A = Variable 0 0 ACROSS 3"
definition slot_B :: Variable where "slot_B = Variable 0 1 DOWN 3"

definition cross_overlaps :: "Variable \<Rightarrow> Variable \<Rightarrow> (nat \<times> nat) option" where
  "cross_overlaps a b =
     (if a = slot_A \<and> b = slot_B then Some (1, 0)
      else if a = slot_B \<and> b = slot_A then Some (0, 1)
      else None)"

definition cross_puzzle :: Crossword where
  "cross_puzzle =
     \<lparr> variables = [slot_A, slot_B], words = [''CAT'', ''ART''], overlaps = cross_overlaps \<rparr>"

text \<open>
  Two slots of three cells that share no cell, and a vocabulary of one word.
  \<^verbatim>\<open>
  ___
  ###
  ___
  \<close>
\<close>

definition slot_P :: Variable where "slot_P = Variable 0 0 ACROSS 3"
definition slot_Q :: Variable where "slot_Q = Variable 2 0 ACROSS 3"

definition twin_puzzle :: Crossword where
  "twin_puzzle =
     \<lparr> variables = [slot_P, slot_Q], words = [''CAT''], overlaps = (\<lambda>a b. None) \<rparr>"

text \<open>
  The chain grid with one row less: \<open>slot_W\<close> (down, four cells) takes the place of
  \<open>slot_Z\<close>, so that \<open>slot_Y\<close> and \<open>slot_W\<close> are neighbours of the same length.
  \<^verbatim>\<open>
  __###
  #_###
  #____
  ####_
  ####_
  ####_
  \<close>
\<close>

definition slot_W :: Variable where "slot_W = Variable 2 4 DOWN 4"

definition tree_overlaps :: "Variable \<Rightarrow> Variable \<Rightarrow> (nat \<times> nat) option" where
  "tree_overlaps a b =
     (if a = slot_U \<and> b = slot_X then Some (1, 0)
      else if a = slot_X \<and> b = slot_U then Some (0, 1)
      else if a = slot_X \<and> b = slot_Y then Some (2, 0)
      else if a = slot_Y \<and> b = slot_X then Some (0, 2)
      else if a = slot_Y \<and> b = slot_W then Some (3, 0)
      else if a = slot_W \<and> b = slot_Y then Some (0, 3)
      else None)"

definition tree_puzzle :: Crossword where
  "tree_puzzle =
     \<lparr> variables = [slot_U, slot_X, slot_Y, slot_W],
       words = [''MA'', ''OB'', ''ACT'', ''ANT'', ''BAD'', ''TREE'', ''DART'', ''DUST'', ''DIRT'',
                ''EASY''],
       overlaps = tree_overlaps \<rparr>"

text \<open>The domains and the assignment that the search leaves on \<open>tree_puzzle\<close>.\<close>

definition tree_final_domains :: domains where
  "tree_final_domains =
     [(slot_U, [''MA'']), (slot_X, [''ACT'', ''ANT'']), (slot_Y, []), (slot_W, [''EASY''])]"

definition tree_returned :: assignment where
  "tree_returned =
     [(slot_U, Some ''MA''), (slot_X, Some ''ACT''), (slot_Y, Some ''TREE''),
      (slot_W, Some ''TREE'')]"

text \<open>
  The two crossing slots of \<open>cross_puzzle\<close> with a vocabulary of four words, and the
  domains and the assignment that the search leaves on it.
\<close>

definition pets_puzzle :: Crossword where
  "pets_puzzle =
     \<lparr> variables = [slot_A, slot_B], words = [''CAT'', ''ART'', ''DOG'', ''OWL''],
       overlaps = cross_overlaps \<rparr>"

definition pets_final_domains :: domains where
  "pets_final_domains = [(slot_A, [''CAT'', ''DOG'']), (slot_B, [''ART'', ''OWL''])]"

definition pets_returned :: assignment where
  "pets_returned = [(slot_A, Some ''CAT''), (slot_B, Some ''ART'')]"

text \<open>
  Three states of the search on \<open>chain_puzzle_time\<close>: the assignment once \<open>slot_X\<close>
  is committed to \<open>ACT\<close>, the domains after the propagation of that commitment, and the
  domains after the recursive call has failed.
\<close>

definition chain_time_committed :: assignment where
  "chain_time_committed =
     [(slot_U, Some ''MA''), (slot_X, Some ''ACT''), (slot_Y, None), (slot_Z, Some ''KNIFE'')]"

definition chain_time_propagated :: domains where
  "chain_time_propagated =
     [(slot_U, [''MA'']), (slot_X, [''ACT'', ''ANT'']), (slot_Y, [''TREE'', ''TIME'']),
      (slot_Z, [''EAGLE''])]"

definition chain_time_failed :: domains where
  "chain_time_failed =
     [(slot_U, [''MA'']), (slot_X, [''ACT'', ''ANT'']), (slot_Y, []), (slot_Z, [''EAGLE''])]"

text \<open>
  Two complete assignments of the chain grid: the one the search returns on
  \<open>chain_puzzle\<close>, and a solution of both chain puzzles.
\<close>

definition chain_returned :: assignment where
  "chain_returned =
     [(slot_U, Some ''MA''), (slot_X, Some ''ACT''), (slot_Y, Some ''TREE''),
      (slot_Z, Some ''KNIFE'')]"

definition chain_solution :: assignment where
  "chain_solution =
     [(slot_U, Some ''MA''), (slot_X, Some ''ACT''), (slot_Y, Some ''TREE''),
      (slot_Z, Some ''EAGLE'')]"

text \<open>
  The domains of \<open>cross_puzzle\<close> after node consistency, after the propagation of the
  single arc \<open>(slot_B, slot_A)\<close>, and after the propagation of all arcs.
\<close>

definition cross_raw_domains :: domains where
  "cross_raw_domains = [(slot_A, [''CAT'', ''ART'']), (slot_B, [''CAT'', ''ART''])]"

definition cross_seeded_domains :: domains where
  "cross_seeded_domains = [(slot_A, [''CAT'', ''ART'']), (slot_B, [''ART''])]"

definition cross_ac_domains :: domains where
  "cross_ac_domains = [(slot_A, [''CAT'']), (slot_B, [''ART''])]"

text \<open>
  The chain grid with a vocabulary that has no word of five letters, and its domains after
  node consistency.
\<close>

definition chain_puzzle_short :: Crossword where
  "chain_puzzle_short =
     \<lparr> variables = [slot_U, slot_X, slot_Y, slot_Z],
       words = [''MA'', ''OB'', ''ACT'', ''ANT'', ''BAD'', ''TREE'', ''DARK''],
       overlaps = chain_overlaps \<rparr>"

definition chain_short_domains :: domains where
  "chain_short_domains =
     [(slot_U, [''MA'', ''OB'']), (slot_X, [''ACT'', ''ANT'', ''BAD'']),
      (slot_Y, [''TREE'', ''DARK'']), (slot_Z, [])]"

subsection \<open>Predicates of the statements\<close>

text \<open>A word of \<open>x\<close> is supported when some word of \<open>y\<close> is compatible with it.\<close>

definition supported :: "nat \<Rightarrow> nat \<Rightarrow> string list \<Rightarrow> string \<Rightarrow> bool" where
  "supported ix iy dy w \<longleftrightarrow> (\<exists>w' \<in> set dy. w ! ix = w' ! iy \<and> w \<noteq> w')"

text \<open>
  The invariant of the loop of \<open>select_unassigned_variable\<close> after the variables
  \<open>S\<close>: nothing is selected while no unassigned variable was seen; otherwise the selected
  variable is unassigned, \<open>min_dom_vals\<close> is the size of its domain, no unassigned variable
  seen has a smaller domain, and none with a domain of that size has more neighbours.
\<close>

definition select_inv :: "Crossword \<Rightarrow> domains \<Rightarrow> assignment \<Rightarrow> Variable set \<Rightarrow> enat \<times> Variable option \<Rightarrow> bool" where
  "select_inv cw doms asg S st =
     (case snd st of
        None \<Rightarrow> fst st = \<infinity> \<and> (\<forall>v \<in> S. map_of asg v \<noteq> Some None)
      | Some s \<Rightarrow>
          s \<in> S \<and> map_of asg s = Some None \<and>
          (\<exists>ds. map_of doms s = Some ds \<and> fst st = enat (length ds) \<and>
             (\<forall>v \<in> S. map_of asg v = Some None \<longrightarrow>
                (\<exists>dv. map_of doms v = Some dv \<and> length ds \<le> length dv \<and>
                   (length dv = length ds \<longrightarrow>
                      length (neighbors cw v) \<le> length (neighbors cw s))))))"

text \<open>
  A domain store as every call of the solver finds it after node consistency: its keys are
  the variables of the puzzle, every domain is a set, and every word has the length of its
  variable.
\<close>

definition good_domains :: "Crossword \<Rightarrow> domains \<Rightarrow> bool" where
  "good_domains cw doms \<longleftrightarrow>
     map fst doms = variables cw \<and>
     list_all (\<lambda>p. distinct (snd p) \<and> list_all (\<lambda>w. length w = var_length (fst p)) (snd p)) doms"

text \<open>A list of arcs between neighbouring variables of the puzzle.\<close>

definition good_arcs :: "Crossword \<Rightarrow> arc list \<Rightarrow> bool" where
  "good_arcs cw arcs \<longleftrightarrow>
     list_all (\<lambda>a. fst a \<in> set (variables cw) \<and> snd a \<in> set (neighbors cw (fst a))) arcs"

text \<open>
  The arc \<open>(x, y)\<close> is consistent: every word of the domain of \<open>x\<close> is supported by a
  word of the domain of \<open>y\<close>. The store is arc consistent when every arc between
  neighbouring variables is.
\<close>

definition arc_ok :: "Crossword \<Rightarrow> domains \<Rightarrow> Variable \<Rightarrow> Variable \<Rightarrow> bool" where
  "arc_ok cw doms x y =
     (case overlaps cw x y of
        None \<Rightarrow> False
      | Some (ix, iy) \<Rightarrow>
          (case map_of doms x of
             None \<Rightarrow> False
           | Some dx \<Rightarrow>
               (case map_of doms y of
                  None \<Rightarrow> False
                | Some dy \<Rightarrow> list_all (supported ix iy dy) dx)))"

definition arc_consistent :: "Crossword \<Rightarrow> domains \<Rightarrow> bool" where
  "arc_consistent cw doms =
     list_all (\<lambda>x. list_all (\<lambda>y. arc_ok cw doms x y) (neighbors cw x)) (variables cw)"

text \<open>The variables that an assignment dictionary maps to \<open>None\<close>.\<close>

definition unassigned :: "assignment \<Rightarrow> Variable set" where
  "unassigned asg = {k. map_of asg k = Some None}"

text \<open>
  The assignment a call of \<open>backtrack\<close> works on: the dictionary it is given, or at
  the root of the search the fresh dictionary that maps every variable to \<open>None\<close>.
\<close>

definition start_assignment :: "Crossword \<Rightarrow> assignment \<Rightarrow> assignment" where
  "start_assignment cw asg = (if asg = [] then map (\<lambda>var. (var, None)) (variables cw) else asg)"

text \<open>
  Forced inference takes the word it assigns out of the domain with \<open>pop()\<close> and leaves
  the domain empty, and a domain never grows. The invariant of the search: two neighbouring
  variables that are both assigned and whose domains are both not empty hold different
  words.
\<close>

definition checked_distinct :: "Crossword \<Rightarrow> domains \<Rightarrow> assignment \<Rightarrow> bool" where
  "checked_distinct cw doms asg \<longleftrightarrow>
     (\<forall>x y x_word y_word.
        map_of asg x = Some (Some x_word) \<longrightarrow> y \<in> set (neighbors cw x) \<longrightarrow>
        map_of asg y = Some (Some y_word) \<longrightarrow>
        map_of doms x \<noteq> Some [] \<longrightarrow> map_of doms y \<noteq> Some [] \<longrightarrow> x_word \<noteq> y_word)"

section \<open>Properties\<close>

subsection \<open>Dictionaries\<close>

lemma map_of_dict_set: "map_of (dict_set d k v) = (map_of d)(k \<mapsto> v)"
  by (simp add: dict_set_def update_conv')

lemma dict_set_keys: "map_of d k = Some old \<Longrightarrow> map fst (dict_set d k v) = map fst d"
  by (induction d) (auto simp: dict_set_def)

subsection \<open>Arc revision\<close>

lemma revise_options_count:
  assumes "ix < length w" "\<forall>w' \<in> set dy. iy < length w'"
  shows "revise_options (Some (ix, iy)) w dy n =
           Inr (n + length (filter (\<lambda>w'. w ! ix = w' ! iy \<and> w \<noteq> w') dy))"
  using assms
  by (induction dy arbitrary: n) (auto simp: words_agree_def char_at_def)

lemma revise_options_zero:
  assumes "ix < length w" "\<forall>w' \<in> set dy. iy < length w'"
  shows "revise_options (Some (ix, iy)) w dy 0 = Inr k \<Longrightarrow> (k = 0) = (\<not> supported ix iy dy w)"
  using revise_options_count[OF assms, of 0]
  by (auto simp: supported_def filter_empty_conv)

lemma revise_options_nil: "revise_options ov w [] n = Inr n"
  by simp

lemma revise_loop_filter:
  assumes "map_of doms y = Some dy" "\<forall>w' \<in> set dy. iy < length w'"
    "\<forall>w \<in> set ws. ix < length w" "distinct ws" "set ws \<subseteq> set cpy"
  shows "revise_loop (Some (ix, iy)) doms y ws (cpy, r) =
           Inr (filter (\<lambda>w. w \<in> set ws \<longrightarrow> supported ix iy dy w) cpy,
                r \<or> (\<exists>w \<in> set ws. \<not> supported ix iy dy w))"
  using assms(3-5)
proof (induction ws arbitrary: cpy r)
  case Nil
  then show ?case by simp
next
  case (Cons w ws)
  have cnt: "revise_options (Some (ix, iy)) w dy 0 =
      Inr (length (filter (\<lambda>w'. w ! ix = w' ! iy \<and> w \<noteq> w') dy))"
    using revise_options_count[of ix w dy iy 0] Cons.prems assms(2) by simp
  show ?case
  proof (cases "supported ix iy dy w")
    case True
    then have nz: "length (filter (\<lambda>w'. w ! ix = w' ! iy \<and> w \<noteq> w') dy) \<noteq> 0"
      by (auto simp: supported_def filter_empty_conv)
    have "revise_loop (Some (ix, iy)) doms y (w # ws) (cpy, r) =
          revise_loop (Some (ix, iy)) doms y ws (cpy, r)"
      using assms(1) cnt nz by (simp add: dict_get_def)
    also have "\<dots> = Inr (filter (\<lambda>v. v \<in> set ws \<longrightarrow> supported ix iy dy v) cpy,
                r \<or> (\<exists>v \<in> set ws. \<not> supported ix iy dy v))"
      using Cons.IH[of cpy r] Cons.prems by simp
    also have "filter (\<lambda>v. v \<in> set ws \<longrightarrow> supported ix iy dy v) cpy =
               filter (\<lambda>v. v \<in> set (w # ws) \<longrightarrow> supported ix iy dy v) cpy"
      using True by (intro filter_cong) auto
    finally show ?thesis using True by simp
  next
    case False
    then have z: "length (filter (\<lambda>w'. w ! ix = w' ! iy \<and> w \<noteq> w') dy) = 0"
      by (auto simp: supported_def filter_empty_conv)
    have win: "w \<in> set cpy" using Cons.prems by simp
    have "revise_loop (Some (ix, iy)) doms y (w # ws) (cpy, r) =
          revise_loop (Some (ix, iy)) doms y ws (removeAll w cpy, True)"
      using assms(1) cnt z win by (simp add: dict_get_def set_remove_def)
    also have "\<dots> = Inr (filter (\<lambda>v. v \<in> set ws \<longrightarrow> supported ix iy dy v) (removeAll w cpy),
                True \<or> (\<exists>v \<in> set ws. \<not> supported ix iy dy v))"
      using Cons.IH[of "removeAll w cpy" True] Cons.prems by auto
    also have "filter (\<lambda>v. v \<in> set ws \<longrightarrow> supported ix iy dy v) (removeAll w cpy) =
               filter (\<lambda>v. v \<in> set (w # ws) \<longrightarrow> supported ix iy dy v) cpy"
      using False by (auto simp: removeAll_filter_not_eq intro: filter_cong)
    finally show ?thesis using False by simp
  qed
qed

lemma revise_result:
  assumes ov: "overlaps cw x y = Some (ix, iy)"
    and dx: "map_of doms x = Some dx" and dy: "map_of doms y = Some dy"
    and dist: "distinct dx"
    and lx: "\<forall>w \<in> set dx. ix < length w" and ly: "\<forall>w \<in> set dy. iy < length w"
  shows "revise cw doms x y =
           Inr (dict_set doms x (filter (supported ix iy dy) dx),
                \<exists>w \<in> set dx. \<not> supported ix iy dy w)"
proof -
  have "revise_loop (Some (ix, iy)) doms y dx (dx, False) =
          Inr (filter (\<lambda>w. w \<in> set dx \<longrightarrow> supported ix iy dy w) dx,
               False \<or> (\<exists>w \<in> set dx. \<not> supported ix iy dy w))"
    using revise_loop_filter[OF dy ly lx dist, of dx False] by simp
  moreover have "filter (\<lambda>w. w \<in> set dx \<longrightarrow> supported ix iy dy w) dx = filter (supported ix iy dy) dx"
    by (intro filter_cong) auto
  ultimately show ?thesis
    using dx ov by (simp add: revise_def dict_get_def)
qed

lemma exists_unsupported_iff:
  "(\<exists>w \<in> set dx. \<not> P w) \<longleftrightarrow> length (filter P dx) < length dx"
proof
  assume "\<exists>w \<in> set dx. \<not> P w"
  then show "length (filter P dx) < length dx"
    by (auto intro: length_filter_less)
next
  assume l: "length (filter P dx) < length dx"
  show "\<exists>w \<in> set dx. \<not> P w"
  proof (rule ccontr)
    assume "\<not> (\<exists>w \<in> set dx. \<not> P w)"
    then have "filter P dx = dx" by (simp add: filter_id_conv)
    with l show False by simp
  qed
qed

text \<open>
  Claim C6. For neighbouring variables \<open>x\<close> and \<open>y\<close> with overlap offsets \<open>(ix, iy)\<close>,
  \<open>revise(x, y)\<close> keeps in the domain of \<open>x\<close> exactly the words \<open>w\<close> for which some
  word \<open>w'\<close> of the domain of \<open>y\<close> has \<open>w[ix] == w'[iy]\<close> and \<open>w != w'\<close>, and removes
  the others; the domain of \<open>y\<close> and of every other variable is unchanged; it returns
  true if and only if the domain of \<open>x\<close> shrank; on an empty domain of \<open>x\<close> nothing
  is removed and it returns false. The words are long enough for the offsets, as they are
  after node consistency.
\<close>

theorem revise_exact:
  assumes ov: "overlaps cw x y = Some (ix, iy)" and ne: "x \<noteq> y"
    and dx: "map_of doms x = Some dx" and dy: "map_of doms y = Some dy"
    and dist: "distinct dx"
    and lx: "\<forall>w \<in> set dx. ix < length w" and ly: "\<forall>w \<in> set dy. iy < length w"
  shows "\<exists>doms' revised. revise cw doms x y = Inr (doms', revised) \<and>
           map_of doms' x = Some (filter (\<lambda>w. \<exists>w' \<in> set dy. w ! ix = w' ! iy \<and> w \<noteq> w') dx) \<and>
           map_of doms' y = Some dy \<and>
           (\<forall>z. z \<noteq> x \<longrightarrow> map_of doms' z = map_of doms z) \<and>
           map fst doms' = map fst doms \<and>
           (revised \<longleftrightarrow> length (filter (\<lambda>w. \<exists>w' \<in> set dy. w ! ix = w' ! iy \<and> w \<noteq> w') dx) < length dx) \<and>
           (dx = [] \<longrightarrow> \<not> revised \<and> map_of doms' x = Some [])"
proof -
  let ?P = "\<lambda>w. \<exists>w' \<in> set dy. w ! ix = w' ! iy \<and> w \<noteq> w'"
  let ?d = "dict_set doms x (filter ?P dx)"
  let ?r = "\<exists>w \<in> set dx. \<not> ?P w"
  have P: "supported ix iy dy = ?P" by (auto simp: supported_def fun_eq_iff)
  have r: "revise cw doms x y = Inr (?d, ?r)"
    using revise_result[OF ov dx dy dist lx ly] unfolding P .
  have 1: "map_of ?d x = Some (filter ?P dx)" by (simp add: map_of_dict_set)
  have 2: "map_of ?d y = Some dy" using ne dy by (simp add: map_of_dict_set)
  have 3: "\<forall>z. z \<noteq> x \<longrightarrow> map_of ?d z = map_of doms z" by (simp add: map_of_dict_set)
  have 4: "map fst ?d = map fst doms" using dx by (rule dict_set_keys)
  have 5: "?r \<longleftrightarrow> length (filter ?P dx) < length dx" by (rule exists_unsupported_iff)
  have 6: "dx = [] \<longrightarrow> \<not> ?r \<and> map_of ?d x = Some []" by (simp add: map_of_dict_set)
  from r 1 2 3 4 5 6 show ?thesis by blast
qed


theorem revise_exact_witness:
  "\<exists>doms' revised. revise chain_puzzle chain_domains slot_Z slot_Y = Inr (doms', revised) \<and>
     map_of doms' slot_Z =
       Some (filter (\<lambda>w. \<exists>w' \<in> set [''TREE'']. w ! 0 = w' ! 3 \<and> w \<noteq> w') [''KNIFE'', ''EAGLE'']) \<and>
     map_of doms' slot_Y = Some [''TREE''] \<and>
     (\<forall>z. z \<noteq> slot_Z \<longrightarrow> map_of doms' z = map_of chain_domains z) \<and>
     map fst doms' = map fst chain_domains \<and>
     (revised \<longleftrightarrow>
        length (filter (\<lambda>w. \<exists>w' \<in> set [''TREE'']. w ! 0 = w' ! 3 \<and> w \<noteq> w') [''KNIFE'', ''EAGLE''])
          < length [''KNIFE'', ''EAGLE'']) \<and>
     ([''KNIFE'', ''EAGLE''] = [] \<longrightarrow> \<not> revised \<and> map_of doms' slot_Z = Some [])"
proof (rule revise_exact)
  show "overlaps chain_puzzle slot_Z slot_Y = Some (0, 3)"
    by (simp add: chain_puzzle_def chain_overlaps_def slot_U_def slot_X_def slot_Y_def slot_Z_def)
  show "slot_Z \<noteq> slot_Y" by (simp add: slot_Y_def slot_Z_def)
  show "map_of chain_domains slot_Z = Some [''KNIFE'', ''EAGLE'']"
    by (simp add: chain_domains_def slot_U_def slot_X_def slot_Y_def slot_Z_def)
  show "map_of chain_domains slot_Y = Some [''TREE'']"
    by (simp add: chain_domains_def slot_U_def slot_X_def slot_Y_def slot_Z_def)
  show "distinct [''KNIFE'', ''EAGLE'']" by simp
  show "\<forall>w \<in> set [''KNIFE'', ''EAGLE'']. 0 < length w" by simp
  show "\<forall>w \<in> set [''TREE'']. 3 < length w" by simp
qed

subsection \<open>Variable selection\<close>

lemma select_inv_assigned:
  assumes "select_inv cw doms asg S st" "map_of asg var = Some (Some w)"
  shows "select_inv cw doms asg (insert var S) st"
proof (cases "snd st")
  case None
  with assms show ?thesis by (simp add: select_inv_def)
next
  case (Some s)
  with assms show ?thesis by (simp add: select_inv_def)
qed

lemma select_inv_smaller:
  assumes inv: "select_inv cw doms asg S (m, sel)"
    and var: "map_of asg var = Some None" "map_of doms var = Some dv"
    and less: "enat (length dv) < m"
  shows "select_inv cw doms asg (insert var S) (enat (length dv), Some var)"
proof (cases sel)
  case None
  with inv var show ?thesis by (simp add: select_inv_def)
next
  case (Some s)
  from inv Some obtain ds where ds: "map_of doms s = Some ds" "m = enat (length ds)"
    and best: "\<forall>v \<in> S. map_of asg v = Some None \<longrightarrow>
                (\<exists>dv. map_of doms v = Some dv \<and> length ds \<le> length dv \<and>
                   (length dv = length ds \<longrightarrow> length (neighbors cw v) \<le> length (neighbors cw s)))"
    by (auto simp: select_inv_def)
  from less ds have lt: "length dv < length ds" by simp
  have "\<forall>v \<in> S. map_of asg v = Some None \<longrightarrow>
          (\<exists>dv'. map_of doms v = Some dv' \<and> length dv \<le> length dv' \<and>
             (length dv' = length dv \<longrightarrow> length (neighbors cw v) \<le> length (neighbors cw var)))"
  proof (intro ballI impI)
    fix v assume "v \<in> S" "map_of asg v = Some None"
    with best obtain dv' where "map_of doms v = Some dv'" "length ds \<le> length dv'" by blast
    with lt show "\<exists>dv'. map_of doms v = Some dv' \<and> length dv \<le> length dv' \<and>
             (length dv' = length dv \<longrightarrow> length (neighbors cw v) \<le> length (neighbors cw var))"
      by auto
  qed
  with var show ?thesis by (simp add: select_inv_def)
qed

lemma select_inv_tie_higher_degree:
  assumes inv: "select_inv cw doms asg S (m, Some s)"
    and var: "map_of asg var = Some None" "map_of doms var = Some dv"
    and eq: "enat (length dv) = m"
    and deg: "length (neighbors cw var) > length (neighbors cw s)"
  shows "select_inv cw doms asg (insert var S) (enat (length dv), Some var)"
proof -
  from inv obtain ds where ds: "map_of doms s = Some ds" "m = enat (length ds)"
    and best: "\<forall>v \<in> S. map_of asg v = Some None \<longrightarrow>
                (\<exists>dv. map_of doms v = Some dv \<and> length ds \<le> length dv \<and>
                   (length dv = length ds \<longrightarrow> length (neighbors cw v) \<le> length (neighbors cw s)))"
    by (auto simp: select_inv_def)
  from eq ds have len: "length dv = length ds" by simp
  have "\<forall>v \<in> S. map_of asg v = Some None \<longrightarrow>
          (\<exists>dv'. map_of doms v = Some dv' \<and> length dv \<le> length dv' \<and>
             (length dv' = length dv \<longrightarrow> length (neighbors cw v) \<le> length (neighbors cw var)))"
  proof (intro ballI impI)
    fix v assume "v \<in> S" "map_of asg v = Some None"
    with best obtain dv' where "map_of doms v = Some dv'" "length ds \<le> length dv'"
      "length dv' = length ds \<longrightarrow> length (neighbors cw v) \<le> length (neighbors cw s)" by blast
    with len deg show "\<exists>dv'. map_of doms v = Some dv' \<and> length dv \<le> length dv' \<and>
             (length dv' = length dv \<longrightarrow> length (neighbors cw v) \<le> length (neighbors cw var))"
      by auto
  qed
  with var show ?thesis by (simp add: select_inv_def)
qed

lemma select_inv_keep:
  assumes inv: "select_inv cw doms asg S (m, Some s)"
    and var: "map_of asg var = Some None" "map_of doms var = Some dv"
    and ge: "m \<le> enat (length dv)"
    and deg: "enat (length dv) = m \<longrightarrow> \<not> length (neighbors cw var) > length (neighbors cw s)"
  shows "select_inv cw doms asg (insert var S) (m, Some s)"
proof -
  from inv obtain ds where sS: "s \<in> S" "map_of asg s = Some None"
    and ds: "map_of doms s = Some ds" "m = enat (length ds)"
    and best: "\<forall>v \<in> S. map_of asg v = Some None \<longrightarrow>
                (\<exists>dv. map_of doms v = Some dv \<and> length ds \<le> length dv \<and>
                   (length dv = length ds \<longrightarrow> length (neighbors cw v) \<le> length (neighbors cw s)))"
    by (auto simp: select_inv_def)
  from ge ds have len: "length ds \<le> length dv" by simp
  from deg ds have d: "length dv = length ds \<longrightarrow> length (neighbors cw var) \<le> length (neighbors cw s)"
    by auto
  have "\<forall>v \<in> insert var S. map_of asg v = Some None \<longrightarrow>
                (\<exists>dv. map_of doms v = Some dv \<and> length ds \<le> length dv \<and>
                   (length dv = length ds \<longrightarrow> length (neighbors cw v) \<le> length (neighbors cw s)))"
    using best var len d by simp
  with sS ds show ?thesis by (simp add: select_inv_def)
qed

lemma select_inv_finite:
  assumes "select_inv cw doms asg S (m, sel)" "m \<le> enat k"
  shows "\<exists>s. sel = Some s"
  using assms by (cases sel) (auto simp: select_inv_def)

lemma select_loop_inv:
  assumes "select_inv cw doms asg S st"
    and "\<forall>v \<in> set vs. map_of asg v \<noteq> None \<and> (map_of asg v = Some None \<longrightarrow> map_of doms v \<noteq> None)"
  shows "\<exists>st'. select_loop cw doms asg vs st = Inr st' \<and> select_inv cw doms asg (S \<union> set vs) st'"
  using assms
proof (induction vs arbitrary: S st)
  case Nil
  then show ?case by simp
next
  case (Cons var rest)
  obtain m sel where st: "st = (m, sel)" by (cases st)
  from Cons.prems(2) obtain a where a: "map_of asg var = Some a" by auto
  have rest: "\<forall>v \<in> set rest. map_of asg v \<noteq> None \<and> (map_of asg v = Some None \<longrightarrow> map_of doms v \<noteq> None)"
    using Cons.prems(2) by simp
  have un: "S \<union> set (var # rest) = insert var S \<union> set rest" by auto
  have inv: "select_inv cw doms asg S (m, sel)" using Cons.prems(1) st by simp
  show ?case
  proof (cases a)
    case (Some w)
    have inv': "select_inv cw doms asg (insert var S) (m, sel)"
      using inv a Some by (auto intro: select_inv_assigned)
    have step: "select_loop cw doms asg (var # rest) st = select_loop cw doms asg rest (m, sel)"
      using a Some by (simp add: st dict_get_def)
    show ?thesis unfolding step un by (rule Cons.IH[OF inv' rest])
  next
    case None
    with a have aN: "map_of asg var = Some None" by simp
    with Cons.prems(2) obtain dv where dv: "map_of doms var = Some dv" by auto
    show ?thesis
    proof (cases "enat (length dv) < m")
      case True
      have inv': "select_inv cw doms asg (insert var S) (enat (length dv), Some var)"
        by (rule select_inv_smaller[OF inv aN dv True])
      have step: "select_loop cw doms asg (var # rest) st =
                  select_loop cw doms asg rest (enat (length dv), Some var)"
        using aN dv True by (simp add: st dict_get_def)
      show ?thesis unfolding step un by (rule Cons.IH[OF inv' rest])
    next
      case False
      then have ge: "m \<le> enat (length dv)" by simp
      from select_inv_finite[OF inv ge] obtain s where s: "sel = Some s" by blast
      note inv_s = inv[unfolded s]
      show ?thesis
      proof (cases "enat (length dv) = m \<and> length (neighbors cw var) > length (neighbors cw s)")
        case True
        have inv': "select_inv cw doms asg (insert var S) (enat (length dv), Some var)"
          using select_inv_tie_higher_degree[OF inv_s aN dv] True by blast
        have step: "select_loop cw doms asg (var # rest) st =
                    select_loop cw doms asg rest (enat (length dv), Some var)"
          using aN dv False s True by (simp add: st dict_get_def)
        show ?thesis unfolding step un by (rule Cons.IH[OF inv' rest])
      next
        case nt: False
        have inv': "select_inv cw doms asg (insert var S) (m, sel)"
          unfolding s using select_inv_keep[OF inv_s aN dv ge] nt by blast
        have step: "select_loop cw doms asg (var # rest) st =
                    select_loop cw doms asg rest (m, sel)"
          using aN dv False s nt by (auto simp: st dict_get_def)
        show ?thesis unfolding step un by (rule Cons.IH[OF inv' rest])
      qed
    qed
  qed
qed

lemma select_unassigned_variable_minimal:
  assumes doms: "\<forall>v. map_of asg v = Some None \<longrightarrow> map_of doms v \<noteq> None"
    and un: "\<exists>v. map_of asg v = Some None"
  shows "\<exists>s ds. select_unassigned_variable cw doms asg = Inr s \<and>
           map_of asg s = Some None \<and> map_of doms s = Some ds \<and>
           (\<forall>v dv. map_of asg v = Some None \<and> map_of doms v = Some dv \<longrightarrow>
              length ds \<le> length dv \<and>
              (length dv = length ds \<longrightarrow> length (neighbors cw v) \<le> length (neighbors cw s)))"
proof -
  have init: "select_inv cw doms asg {} (\<infinity>, None)" by (simp add: select_inv_def)
  have keys: "\<forall>v \<in> set (map fst asg). map_of asg v \<noteq> None \<and>
      (map_of asg v = Some None \<longrightarrow> map_of doms v \<noteq> None)"
    using doms by (auto simp: map_of_eq_None_iff)
  from select_loop_inv[OF init keys] obtain st' where
    loop: "select_loop cw doms asg (map fst asg) (\<infinity>, None) = Inr st'"
    and inv: "select_inv cw doms asg (set (map fst asg)) st'" by auto
  from un obtain u where u: "map_of asg u = Some None" by auto
  then have uin: "u \<in> set (map fst asg)" by (metis map_of_eq_None_iff option.distinct(1) set_map)
  obtain m sel where st': "st' = (m, sel)" by (cases st')
  from inv u uin obtain s where s: "sel = Some s"
    unfolding st' select_inv_def by (cases sel) auto
  from inv obtain ds where sN: "map_of asg s = Some None" and ds: "map_of doms s = Some ds"
    and best: "\<forall>v \<in> set (map fst asg). map_of asg v = Some None \<longrightarrow>
                (\<exists>dv. map_of doms v = Some dv \<and> length ds \<le> length dv \<and>
                   (length dv = length ds \<longrightarrow> length (neighbors cw v) \<le> length (neighbors cw s)))"
    unfolding st' s select_inv_def by auto
  have res: "select_unassigned_variable cw doms asg = Inr s"
    by (simp add: select_unassigned_variable_def loop st' s)
  have "\<forall>v dv. map_of asg v = Some None \<and> map_of doms v = Some dv \<longrightarrow>
              length ds \<le> length dv \<and>
              (length dv = length ds \<longrightarrow> length (neighbors cw v) \<le> length (neighbors cw s))"
  proof (intro allI impI)
    fix v dv assume h: "map_of asg v = Some None \<and> map_of doms v = Some dv"
    then have "v \<in> set (map fst asg)" by (metis map_of_eq_None_iff option.distinct(1) set_map)
    with best h show "length ds \<le> length dv \<and>
              (length dv = length ds \<longrightarrow> length (neighbors cw v) \<le> length (neighbors cw s))"
      by fastforce
  qed
  with res sN ds show ?thesis by blast
qed


text \<open>
  Claim C9. Given an assignment with at least one unassigned variable,
  \<open>select_unassigned_variable\<close> returns an unassigned variable whose domain is of minimal
  size among the unassigned variables, and whose number of neighbours is maximal among the
  unassigned variables with a domain of that size.
\<close>

theorem select_unassigned_variable_mrv_degree:
  assumes doms: "\<forall>v. map_of asg v = Some None \<longrightarrow> map_of doms v \<noteq> None"
    and un: "\<exists>v. map_of asg v = Some None"
  shows "\<exists>s ds. select_unassigned_variable cw doms asg = Inr s \<and>
           map_of asg s = Some None \<and> map_of doms s = Some ds \<and>
           (\<forall>v dv. map_of asg v = Some None \<and> map_of doms v = Some dv \<longrightarrow>
              length ds \<le> length dv \<and>
              (length dv = length ds \<longrightarrow> length (neighbors cw v) \<le> length (neighbors cw s)))"
  using doms un by (rule select_unassigned_variable_minimal)

theorem select_unassigned_variable_mrv_degree_witness:
  "\<exists>s ds. select_unassigned_variable chain_puzzle chain_start_domains chain_assignment = Inr s \<and>
     map_of chain_assignment s = Some None \<and> map_of chain_start_domains s = Some ds \<and>
     (\<forall>v dv. map_of chain_assignment v = Some None \<and> map_of chain_start_domains v = Some dv \<longrightarrow>
        length ds \<le> length dv \<and>
        (length dv = length ds \<longrightarrow>
           length (neighbors chain_puzzle v) \<le> length (neighbors chain_puzzle s)))"
proof (rule select_unassigned_variable_mrv_degree)
  show "\<forall>v. map_of chain_assignment v = Some None \<longrightarrow> map_of chain_start_domains v \<noteq> None"
    by (simp add: chain_assignment_def chain_start_domains_def)
  have "map_of chain_assignment slot_X = Some None"
    by (simp add: chain_assignment_def slot_U_def slot_X_def)
  then show "\<exists>v. map_of chain_assignment v = Some None" ..
qed

subsection \<open>Forced inference\<close>

lemma dict_get_Inr: "dict_get d k = Inr v \<longleftrightarrow> map_of d k = Some v"
  by (simp add: dict_get_def split: option.splits)

lemma root_loop_keeps_assigned:
  "root_loop vs doms asg = Inr (doms', asg') \<Longrightarrow>
   map_of asg v = Some (Some w) \<Longrightarrow> map_of doms v = Some [] \<Longrightarrow>
   map_of asg' v = Some (Some w) \<and> map_of doms' v = Some []"
proof (induction vs arbitrary: doms asg)
  case Nil
  then show ?case by simp
next
  case (Cons u vs)
  from Cons.prems(1) obtain du where du: "map_of doms u = Some du"
    by (auto simp: dict_get_def split: option.splits)
  show ?case
  proof (cases "\<exists>x. du = [x]")
    case True
    then obtain x where x: "du = [x]" by blast
    with du Cons.prems(3) have ne: "u \<noteq> v" by auto
    from Cons.prems(1) du x
    have "root_loop vs (dict_set doms u []) (dict_set asg u (Some x)) = Inr (doms', asg')"
      by (simp add: dict_get_def)
    moreover have "map_of (dict_set asg u (Some x)) v = Some (Some w)"
      using ne Cons.prems(2) by (simp add: map_of_dict_set)
    moreover have "map_of (dict_set doms u []) v = Some []"
      using ne Cons.prems(3) by (simp add: map_of_dict_set)
    ultimately show ?thesis by (rule Cons.IH)
  next
    case False
    with Cons.prems(1) du have "root_loop vs doms asg = Inr (doms', asg')"
      by (cases du rule: list.exhaust[case_names Nil Cons]; cases "tl du")
         (auto simp: dict_get_def split: list.splits)
    then show ?thesis using Cons.prems(2,3) by (rule Cons.IH)
  qed
qed

lemma root_loop_pops:
  "root_loop vs doms asg = Inr (doms', asg') \<Longrightarrow>
   map_of asg v = Some None \<Longrightarrow> map_of asg' v = Some (Some w) \<Longrightarrow>
   map_of doms v = Some [w] \<and> map_of doms' v = Some []"
proof (induction vs arbitrary: doms asg)
  case Nil
  then show ?case by simp
next
  case (Cons u vs)
  from Cons.prems(1) obtain du where du: "map_of doms u = Some du"
    by (auto simp: dict_get_def split: option.splits)
  show ?case
  proof (cases "\<exists>x. du = [x]")
    case True
    then obtain x where x: "du = [x]" by blast
    from Cons.prems(1) du x
    have rest: "root_loop vs (dict_set doms u []) (dict_set asg u (Some x)) = Inr (doms', asg')"
      by (simp add: dict_get_def)
    show ?thesis
    proof (cases "u = v")
      case True
      have "map_of (dict_set asg u (Some x)) v = Some (Some x)"
        "map_of (dict_set doms u []) v = Some []"
        using True by (simp_all add: map_of_dict_set)
      from root_loop_keeps_assigned[OF rest this]
      have "map_of asg' v = Some (Some x)" "map_of doms' v = Some []" by simp_all
      with Cons.prems(3) du x True show ?thesis by simp
    next
      case False
      have "map_of (dict_set asg u (Some x)) v = Some None"
        using False Cons.prems(2) by (simp add: map_of_dict_set)
      from Cons.IH[OF rest this Cons.prems(3)] False show ?thesis
        by (simp add: map_of_dict_set)
    qed
  next
    case False
    with Cons.prems(1) du have "root_loop vs doms asg = Inr (doms', asg')"
      by (cases du rule: list.exhaust[case_names Nil Cons]; cases "tl du")
         (auto simp: dict_get_def split: list.splits)
    then show ?thesis using Cons.prems(2,3) by (rule Cons.IH)
  qed
qed

lemma inference_loop_keeps_assigned:
  "inference_loop vs doms asg = Inr (doms', asg') \<Longrightarrow>
   map_of asg v = Some (Some w) \<Longrightarrow> map_of doms v = Some d \<Longrightarrow>
   map_of asg' v = Some (Some w) \<and> map_of doms' v = Some d"
proof (induction vs arbitrary: doms asg)
  case Nil
  then show ?case by simp
next
  case (Cons u vs)
  from Cons.prems(1) obtain a where a: "map_of asg u = Some a"
    by (auto simp: dict_get_def split: option.splits)
  show ?case
  proof (cases a)
    case (Some y)
    with Cons.prems(1) a have "inference_loop vs doms asg = Inr (doms', asg')"
      by (simp add: dict_get_def)
    then show ?thesis using Cons.prems(2,3) by (rule Cons.IH)
  next
    case None
    with a Cons.prems(2) have ne: "u \<noteq> v" by auto
    from Cons.prems(1) a None obtain du where du: "map_of doms u = Some du"
      by (auto simp: dict_get_def split: option.splits)
    show ?thesis
    proof (cases "\<exists>x. du = [x]")
      case True
      then obtain x where x: "du = [x]" by blast
      from Cons.prems(1) a None du x
      have "inference_loop vs (dict_set doms u []) (dict_set asg u (Some x)) = Inr (doms', asg')"
        by (simp add: dict_get_def)
      moreover have "map_of (dict_set asg u (Some x)) v = Some (Some w)"
        using ne Cons.prems(2) by (simp add: map_of_dict_set)
      moreover have "map_of (dict_set doms u []) v = Some d"
        using ne Cons.prems(3) by (simp add: map_of_dict_set)
      ultimately show ?thesis by (rule Cons.IH)
    next
      case False
      with Cons.prems(1) a None du have "inference_loop vs doms asg = Inr (doms', asg')"
        by (cases du rule: list.exhaust[case_names Nil Cons]; cases "tl du")
           (auto simp: dict_get_def split: list.splits)
      then show ?thesis using Cons.prems(2,3) by (rule Cons.IH)
    qed
  qed
qed

lemma inference_loop_pops:
  "inference_loop vs doms asg = Inr (doms', asg') \<Longrightarrow>
   map_of asg v = Some None \<Longrightarrow> map_of asg' v = Some (Some w) \<Longrightarrow>
   map_of doms v = Some [w] \<and> map_of doms' v = Some []"
proof (induction vs arbitrary: doms asg)
  case Nil
  then show ?case by simp
next
  case (Cons u vs)
  from Cons.prems(1) obtain a where a: "map_of asg u = Some a"
    by (auto simp: dict_get_def split: option.splits)
  show ?case
  proof (cases a)
    case (Some y)
    with Cons.prems(1) a have "inference_loop vs doms asg = Inr (doms', asg')"
      by (simp add: dict_get_def)
    then show ?thesis using Cons.prems(2,3) by (rule Cons.IH)
  next
    case None
    from Cons.prems(1) a None obtain du where du: "map_of doms u = Some du"
      by (auto simp: dict_get_def split: option.splits)
    show ?thesis
    proof (cases "\<exists>x. du = [x]")
      case True
      then obtain x where x: "du = [x]" by blast
      from Cons.prems(1) a None du x
      have rest: "inference_loop vs (dict_set doms u []) (dict_set asg u (Some x)) = Inr (doms', asg')"
        by (simp add: dict_get_def)
      show ?thesis
      proof (cases "u = v")
        case True
        have "map_of (dict_set asg u (Some x)) v = Some (Some x)"
          "map_of (dict_set doms u []) v = Some []"
          using True by (simp_all add: map_of_dict_set)
        from inference_loop_keeps_assigned[OF rest this]
        have "map_of asg' v = Some (Some x)" "map_of doms' v = Some []" by simp_all
        with Cons.prems(3) du x True show ?thesis by simp
      next
        case False
        have "map_of (dict_set asg u (Some x)) v = Some None"
          using False Cons.prems(2) by (simp add: map_of_dict_set)
        from Cons.IH[OF rest this Cons.prems(3)] False show ?thesis
          by (simp add: map_of_dict_set)
      qed
    next
      case False
      with Cons.prems(1) a None du have "inference_loop vs doms asg = Inr (doms', asg')"
        by (cases du rule: list.exhaust[case_names Nil Cons]; cases "tl du")
           (auto simp: dict_get_def split: list.splits)
      then show ?thesis using Cons.prems(2,3) by (rule Cons.IH)
    qed
  qed
qed


text \<open>
  Claim C10. Whenever a variable is assigned by forced inference, in the loop at the root
  of the search or in the loop after a successful propagation, its domain held exactly the
  assigned word before the step and is empty after it: the word is taken out of the domain
  by \<open>pop\<close> in the same step.
\<close>

theorem forced_inference_pops:
  assumes "root_loop vs doms asg = Inr (doms', asg') \<or>
           inference_loop vs doms asg = Inr (doms', asg')"
    and "map_of asg v = Some None" and "map_of asg' v = Some (Some w)"
  shows "map_of doms v = Some [w] \<and> map_of doms' v = Some []"
  using assms root_loop_pops inference_loop_pops by blast

theorem forced_inference_pops_witness:
  "(map_of [(slot_A, [''CAT'']), (slot_B, [''ART''])] slot_A = Some [''CAT''] \<and>
    map_of [(slot_A, []), (slot_B, []::string list)] slot_A = Some []) \<and>
   (map_of [(slot_U, [''MA'']), (slot_X, [''ACT'', ''ANT'']), (slot_Y, [''TREE'']),
            (slot_Z, [''EAGLE''])] slot_Y = Some [''TREE''] \<and>
    map_of [(slot_U, [''MA'']), (slot_X, [''ACT'', ''ANT'']), (slot_Y, []::string list),
            (slot_Z, [''EAGLE''])] slot_Y = Some [])"
proof (rule conjI)
  show "map_of [(slot_A, [''CAT'']), (slot_B, [''ART''])] slot_A = Some [''CAT''] \<and>
        map_of [(slot_A, []), (slot_B, []::string list)] slot_A = Some []"
  proof (rule forced_inference_pops)
    show "root_loop [slot_A, slot_B] [(slot_A, [''CAT'']), (slot_B, [''ART''])]
            [(slot_A, None), (slot_B, None)]
          = Inr ([(slot_A, []), (slot_B, []::string list)], [(slot_A, Some ''CAT''), (slot_B, Some ''ART'')]) \<or>
          inference_loop [slot_A, slot_B] [(slot_A, [''CAT'']), (slot_B, [''ART''])]
            [(slot_A, None), (slot_B, None)]
          = Inr ([(slot_A, []), (slot_B, []::string list)], [(slot_A, Some ''CAT''), (slot_B, Some ''ART'')])"
      by (simp add: dict_get_def dict_set_def slot_A_def slot_B_def)
    show "map_of [(slot_A, None), (slot_B, None)] slot_A = Some None" by simp
    show "map_of [(slot_A, Some ''CAT''), (slot_B, Some ''ART'')] slot_A = Some (Some ''CAT'')"
      by simp
  qed
  show "map_of [(slot_U, [''MA'']), (slot_X, [''ACT'', ''ANT'']), (slot_Y, [''TREE'']),
            (slot_Z, [''EAGLE''])] slot_Y = Some [''TREE''] \<and>
    map_of [(slot_U, [''MA'']), (slot_X, [''ACT'', ''ANT'']), (slot_Y, []::string list),
            (slot_Z, [''EAGLE''])] slot_Y = Some []"
  proof (rule forced_inference_pops)
    show "root_loop [slot_U, slot_X, slot_Y, slot_Z]
            [(slot_U, [''MA'']), (slot_X, [''ACT'', ''ANT'']), (slot_Y, [''TREE'']), (slot_Z, [''EAGLE''])]
            [(slot_U, Some ''MA''), (slot_X, Some ''ACT''), (slot_Y, None), (slot_Z, Some ''KNIFE'')]
          = Inr ([(slot_U, [''MA'']), (slot_X, [''ACT'', ''ANT'']), (slot_Y, []::string list), (slot_Z, [''EAGLE''])],
                 [(slot_U, Some ''MA''), (slot_X, Some ''ACT''), (slot_Y, Some ''TREE''),
                  (slot_Z, Some ''KNIFE'')]) \<or>
          inference_loop [slot_U, slot_X, slot_Y, slot_Z]
            [(slot_U, [''MA'']), (slot_X, [''ACT'', ''ANT'']), (slot_Y, [''TREE'']), (slot_Z, [''EAGLE''])]
            [(slot_U, Some ''MA''), (slot_X, Some ''ACT''), (slot_Y, None), (slot_Z, Some ''KNIFE'')]
          = Inr ([(slot_U, [''MA'']), (slot_X, [''ACT'', ''ANT'']), (slot_Y, []::string list), (slot_Z, [''EAGLE''])],
                 [(slot_U, Some ''MA''), (slot_X, Some ''ACT''), (slot_Y, Some ''TREE''),
                  (slot_Z, Some ''KNIFE'')])"
      by (rule disjI2) (simp add: dict_get_def dict_set_def slot_U_def slot_X_def slot_Y_def slot_Z_def)
    show "map_of [(slot_U, Some ''MA''), (slot_X, Some ''ACT''), (slot_Y, None), (slot_Z, Some ''KNIFE'')]
            slot_Y = Some None"
      by (simp add: slot_U_def slot_X_def slot_Y_def slot_Z_def)
    show "map_of [(slot_U, Some ''MA''), (slot_X, Some ''ACT''), (slot_Y, Some ''TREE''),
                  (slot_Z, Some ''KNIFE'')] slot_Y = Some (Some ''TREE'')"
      by (simp add: slot_U_def slot_X_def slot_Y_def slot_Z_def)
  qed
qed

subsection \<open>The candidate loop of the search\<close>

lemma remove_value_present:
  "map_of doms var = Some dv \<Longrightarrow> value \<in> set dv \<Longrightarrow>
   remove_value doms var value = Inr (dict_set doms var (removeAll value dv))"
  by (simp add: remove_value_def dict_get_def set_remove_def)

text \<open>
  Claim C3, as the source has it. The statement \<open>self.domains[var].remove(value)\<close> is the
  last statement of the body of the candidate loop, outside the test of consistency. A
  candidate that makes the tentative assignment inconsistent is discarded without a
  recursive call and is removed from the domain of the variable at that point; a candidate
  that was committed and whose recursive call failed is removed from the domain that the
  failed call left behind. In both cases the loop goes on with the next candidate.
\<close>

theorem backtrack_loop_removes_candidate:
  assumes "consistent cw (dict_set asg var (Some value)) = Inr False \<and> st = (doms, asg) \<or>
           consistent cw (dict_set asg var (Some value)) = Inr True \<and>
           ac3 cw doms (Some (map (\<lambda>y. (y, var)) (neighbors cw var))) = Inr (doms1, inferences) \<and>
           (if inferences
            then inference_loop (map fst (dict_set asg var (Some value))) doms1
                   (dict_set asg var (Some value))
            else Inr (doms1, dict_set asg var (Some value))) = Inr (doms2, asg2) \<and>
           backtrack n cw doms2 asg2 = Returned (st, None)"
    and "map_of (fst st) var = Some dv" and "value \<in> set dv"
  shows "backtrack_loop n cw var (value # rest) doms asg =
           backtrack_loop n cw var rest (dict_set (fst st) var (removeAll value dv)) (snd st)"
  using assms(1)
proof (elim disjE conjE)
  assume "consistent cw (dict_set asg var (Some value)) = Inr False" "st = (doms, asg)"
  then show ?thesis
    using remove_value_present[OF assms(2,3)] by simp
next
  assume h: "consistent cw (dict_set asg var (Some value)) = Inr True"
    "ac3 cw doms (Some (map (\<lambda>y. (y, var)) (neighbors cw var))) = Inr (doms1, inferences)"
    "(if inferences
            then inference_loop (map fst (dict_set asg var (Some value))) doms1
                   (dict_set asg var (Some value))
            else Inr (doms1, dict_set asg var (Some value))) = Inr (doms2, asg2)"
    "backtrack n cw doms2 asg2 = Returned (st, None)"
  obtain doms3 asg3 where st: "st = (doms3, asg3)" by (cases st)
  from remove_value_present[OF assms(2,3)] st
  have rv: "remove_value doms3 var value = Inr (dict_set doms3 var (removeAll value dv))" by simp
  show ?thesis
    using h rv unfolding st by (cases inferences) simp_all
qed

theorem backtrack_loop_removes_candidate_witness:
  "backtrack_loop 0 chain_puzzle slot_X [''BAD''] chain_start_domains chain_assignment =
     backtrack_loop 0 chain_puzzle slot_X []
       (dict_set chain_start_domains slot_X (removeAll ''BAD'' [''ACT'', ''ANT'', ''BAD'']))
       chain_assignment \<and>
   backtrack_loop 1 chain_puzzle_time slot_X [''ACT'', ''ANT''] chain_time_pruned_domains
       chain_assignment =
     backtrack_loop 1 chain_puzzle_time slot_X [''ANT'']
       (dict_set chain_time_failed slot_X (removeAll ''ACT'' [''ACT'', ''ANT'']))
       chain_time_committed"
proof (rule conjI)
  have h1: "consistent chain_puzzle (dict_set chain_assignment slot_X (Some ''BAD'')) = Inr False \<and>
      (chain_start_domains, chain_assignment) = (chain_start_domains, chain_assignment) \<or>
      consistent chain_puzzle (dict_set chain_assignment slot_X (Some ''BAD'')) = Inr True \<and>
      ac3 chain_puzzle chain_start_domains
        (Some (map (\<lambda>y. (y, slot_X)) (neighbors chain_puzzle slot_X))) = Inr ([], True) \<and>
      (if True
       then inference_loop (map fst (dict_set chain_assignment slot_X (Some ''BAD''))) []
              (dict_set chain_assignment slot_X (Some ''BAD''))
       else Inr ([], dict_set chain_assignment slot_X (Some ''BAD''))) = Inr ([], []) \<and>
      backtrack 0 chain_puzzle [] [] = Returned ((chain_start_domains, chain_assignment), None)"
    by (rule disjI1) code_simp
  have h2: "map_of (fst (chain_start_domains, chain_assignment)) slot_X = Some [''ACT'', ''ANT'', ''BAD'']"
    by code_simp
  have h3: "''BAD'' \<in> set [''ACT'', ''ANT'', ''BAD'']" by simp
  show "backtrack_loop 0 chain_puzzle slot_X [''BAD''] chain_start_domains chain_assignment =
     backtrack_loop 0 chain_puzzle slot_X []
       (dict_set chain_start_domains slot_X (removeAll ''BAD'' [''ACT'', ''ANT'', ''BAD'']))
       chain_assignment"
    using backtrack_loop_removes_candidate[OF h1 h2 h3, of "[]"]
    by (simp only: fst_conv snd_conv)
next
  have h1: "consistent chain_puzzle_time (dict_set chain_assignment slot_X (Some ''ACT'')) = Inr False \<and>
      (chain_time_failed, chain_time_committed) = (chain_time_pruned_domains, chain_assignment) \<or>
      consistent chain_puzzle_time (dict_set chain_assignment slot_X (Some ''ACT'')) = Inr True \<and>
      ac3 chain_puzzle_time chain_time_pruned_domains
        (Some (map (\<lambda>y. (y, slot_X)) (neighbors chain_puzzle_time slot_X)))
        = Inr (chain_time_propagated, True) \<and>
      (if True
       then inference_loop (map fst (dict_set chain_assignment slot_X (Some ''ACT'')))
              chain_time_propagated (dict_set chain_assignment slot_X (Some ''ACT''))
       else Inr (chain_time_propagated, dict_set chain_assignment slot_X (Some ''ACT'')))
        = Inr (chain_time_propagated, chain_time_committed) \<and>
      backtrack 1 chain_puzzle_time chain_time_propagated chain_time_committed
        = Returned ((chain_time_failed, chain_time_committed), None)"
    by (rule disjI2) code_simp
  have h2: "map_of (fst (chain_time_failed, chain_time_committed)) slot_X = Some [''ACT'', ''ANT'']"
    by code_simp
  have h3: "''ACT'' \<in> set [''ACT'', ''ANT'']" by simp
  show "backtrack_loop 1 chain_puzzle_time slot_X [''ACT'', ''ANT''] chain_time_pruned_domains
       chain_assignment =
     backtrack_loop 1 chain_puzzle_time slot_X [''ANT'']
       (dict_set chain_time_failed slot_X (removeAll ''ACT'' [''ACT'', ''ANT'']))
       chain_time_committed"
    using backtrack_loop_removes_candidate[OF h1 h2 h3, of "[''ANT'']"]
    by (simp only: fst_conv snd_conv)
qed

text \<open>
  The claim C3 as stated fails: on \<open>chain_puzzle\<close>, with \<open>slot_U\<close> holding \<open>MA\<close>,
  the candidate \<open>BAD\<close> of \<open>slot_X\<close> is inconsistent, no recursive call is made (the
  loop needs no fuel), and \<open>BAD\<close> has left the domain of \<open>slot_X\<close>.
\<close>

theorem inconsistent_candidate_removed:
  "consistent chain_puzzle (dict_set chain_assignment slot_X (Some ''BAD'')) = Inr False \<and>
   map_of chain_start_domains slot_X = Some [''ACT'', ''ANT'', ''BAD''] \<and>
   backtrack_loop 0 chain_puzzle slot_X [''BAD''] chain_start_domains chain_assignment =
     Returned ((chain_pruned_domains, chain_assignment), None) \<and>
   map_of chain_pruned_domains slot_X = Some [''ACT'', ''ANT'']"
  by code_simp

subsection \<open>The queue of AC-3\<close>

text \<open>
  Claim C7. \<open>ac3\<close> pops the last arc \<open>(x, y)\<close> of its list and runs \<open>revise(x, y)\<close>.
  If the domain of \<open>x\<close> was revised and is now empty it returns false; if it was revised
  and is not empty, the arcs \<open>(z, x)\<close> for the neighbours \<open>z\<close> of \<open>x\<close> other than
  \<open>y\<close> are appended and the loop goes on; otherwise the loop goes on with the rest. On the
  empty list it returns true. Without initial arcs the list holds the pairs \<open>(x, y)\<close> of
  every variable \<open>x\<close> of the domain store and every neighbour \<open>y\<close> of \<open>x\<close>.
\<close>

theorem ac3_processes_queue:
  assumes "revise cw doms x y = Inr (doms', revised)" and "map_of doms' x = Some dx"
    and "y \<in> set (neighbors cw x)"
  shows "ac3_loop cw doms (arcs @ [(x, y)]) =
           (if revised \<and> dx = [] then Inr (doms', False)
            else if revised
            then ac3_loop cw doms' (arcs @ map (\<lambda>z. (z, x)) (removeAll y (neighbors cw x)))
            else ac3_loop cw doms' arcs) \<and>
         ac3_loop cw doms' [] = Inr (doms', True) \<and>
         ac3 cw doms None = ac3_loop cw doms (all_arcs cw doms) \<and>
         set (all_arcs cw doms) = {(u, v). u \<in> set (map fst doms) \<and> v \<in> set (neighbors cw u)}"
proof (intro conjI)
  show "ac3_loop cw doms (arcs @ [(x, y)]) =
           (if revised \<and> dx = [] then Inr (doms', False)
            else if revised
            then ac3_loop cw doms' (arcs @ map (\<lambda>z. (z, x)) (removeAll y (neighbors cw x)))
            else ac3_loop cw doms' arcs)"
    using assms by (subst ac3_loop.simps) (simp add: dict_get_def set_remove_def)
  show "ac3_loop cw doms' [] = Inr (doms', True)" by (subst ac3_loop.simps) simp
  show "ac3 cw doms None = ac3_loop cw doms (all_arcs cw doms)" by (simp add: ac3_def)
  show "set (all_arcs cw doms) = {(u, v). u \<in> set (map fst doms) \<and> v \<in> set (neighbors cw u)}"
    by (auto simp: all_arcs_def)
qed


theorem ac3_processes_queue_witness:
  "ac3_loop chain_puzzle chain_pruned_domains ([(slot_U, slot_X)] @ [(slot_Y, slot_X)]) =
     (if True \<and> [''TREE''] = [] then Inr (chain_domains, False)
      else if True
      then ac3_loop chain_puzzle chain_domains
             ([(slot_U, slot_X)] @
              map (\<lambda>z. (z, slot_Y)) (removeAll slot_X (neighbors chain_puzzle slot_Y)))
      else ac3_loop chain_puzzle chain_domains [(slot_U, slot_X)]) \<and>
   ac3_loop chain_puzzle chain_domains [] = Inr (chain_domains, True) \<and>
   ac3 chain_puzzle chain_pruned_domains None =
     ac3_loop chain_puzzle chain_pruned_domains (all_arcs chain_puzzle chain_pruned_domains) \<and>
   set (all_arcs chain_puzzle chain_pruned_domains) =
     {(u, v). u \<in> set (map fst chain_pruned_domains) \<and> v \<in> set (neighbors chain_puzzle u)}"
proof (rule ac3_processes_queue)
  show "revise chain_puzzle chain_pruned_domains slot_Y slot_X = Inr (chain_domains, True)"
    by code_simp
  show "map_of chain_domains slot_Y = Some [''TREE'']" by code_simp
  show "slot_X \<in> set (neighbors chain_puzzle slot_Y)" by code_simp
qed


subsection \<open>The result of the search\<close>

text \<open>
  The two chain puzzles are well formed, and the assignment \<open>MA\<close>, \<open>ACT\<close>,
  \<open>TREE\<close>, \<open>EAGLE\<close> solves both of them.
\<close>

lemma chain_puzzles_wf: "wf_crossword chain_puzzle \<and> wf_crossword chain_puzzle_time"
  by code_simp

lemma chain_puzzles_solvable:
  "assignment_complete chain_solution \<and>
   consistent chain_puzzle chain_solution = Inr True \<and>
   consistent chain_puzzle_time chain_solution = Inr True"
  by code_simp

text \<open>
  Claim C1. A returned assignment is complete and consistent. On \<open>chain_puzzle\<close> the
  source returns a complete assignment that is not consistent: after \<open>slot_U\<close> and
  \<open>slot_Z\<close> hold \<open>MA\<close> and \<open>KNIFE\<close>, the candidate \<open>BAD\<close> of \<open>slot_X\<close> is
  removed and \<open>ACT\<close> is committed; the propagation leaves \<open>slot_Y\<close> with the single
  word \<open>TREE\<close>, which is assigned without a test of consistency, although its last
  letter is not the first letter of \<open>KNIFE\<close>.
\<close>

theorem solve_returns_inconsistent_assignment:
  "solve chain_puzzle = Returned ((chain_time_failed, chain_returned), Some chain_returned) \<and>
   assignment_complete chain_returned \<and>
   consistent chain_puzzle chain_returned = Inr False"
  by code_simp

lemma chain_returned_conflict:
  "words_conflict (overlaps chain_puzzle slot_Y slot_Z) ''TREE'' ''KNIFE'' = Inr True"
  by code_simp

text \<open>
  Claim C4. \<open>solve\<close> ends with an assignment or with \<open>None\<close> and never raises. On
  \<open>chain_puzzle_time\<close> the source raises \<open>KeyError\<close>: the propagation that follows
  the commitment of \<open>slot_X\<close> removes \<open>KNIFE\<close> from the domain of \<open>slot_Z\<close> and
  \<open>OB\<close> from the domain of \<open>slot_U\<close>; the search below fails, and the candidate loop
  of the enclosing call then removes a word that is no longer in the domain.
\<close>

theorem solve_raises_KeyError: "solve chain_puzzle_time = Raised KeyError"
  by code_simp


subsection \<open>Node consistency\<close>

lemma node_consistent_loop_filter:
  assumes "distinct ws" "set ws \<subseteq> set cpy"
  shows "node_consistent_loop var ws cpy =
           Inr (filter (\<lambda>w. w \<in> set ws \<longrightarrow> length w = var_length var) cpy)"
  using assms
proof (induction ws arbitrary: cpy)
  case Nil
  then show ?case by simp
next
  case (Cons w ws)
  show ?case
  proof (cases "length w = var_length var")
    case True
    have "node_consistent_loop var (w # ws) cpy = node_consistent_loop var ws cpy"
      using True by simp
    also have "\<dots> = Inr (filter (\<lambda>v. v \<in> set ws \<longrightarrow> length v = var_length var) cpy)"
      using Cons.IH[of cpy] Cons.prems by simp
    also have "filter (\<lambda>v. v \<in> set ws \<longrightarrow> length v = var_length var) cpy =
               filter (\<lambda>v. v \<in> set (w # ws) \<longrightarrow> length v = var_length var) cpy"
      using True by (intro filter_cong) auto
    finally show ?thesis .
  next
    case False
    have win: "w \<in> set cpy" using Cons.prems by simp
    have "node_consistent_loop var (w # ws) cpy = node_consistent_loop var ws (removeAll w cpy)"
      using False win by (simp add: set_remove_def)
    also have "\<dots> = Inr (filter (\<lambda>v. v \<in> set ws \<longrightarrow> length v = var_length var) (removeAll w cpy))"
      using Cons.IH[of "removeAll w cpy"] Cons.prems by auto
    also have "filter (\<lambda>v. v \<in> set ws \<longrightarrow> length v = var_length var) (removeAll w cpy) =
               filter (\<lambda>v. v \<in> set (w # ws) \<longrightarrow> length v = var_length var) cpy"
      using False by (auto simp: removeAll_filter_not_eq intro: filter_cong)
    finally show ?thesis .
  qed
qed

lemma node_consistent_loop_self:
  assumes "distinct ws"
  shows "node_consistent_loop var ws ws = Inr (filter (\<lambda>w. length w = var_length var) ws)"
proof -
  have "filter (\<lambda>w. w \<in> set ws \<longrightarrow> length w = var_length var) ws =
        filter (\<lambda>w. length w = var_length var) ws"
    by (intro filter_cong) auto
  with node_consistent_loop_filter[OF assms, of ws var] show ?thesis by simp
qed

lemma map_of_append_fresh:
  "k \<notin> fst ` set pre \<Longrightarrow> map_of (pre @ (k, v) # r) k = Some v"
  by (induction pre) auto

lemma update_append_fresh:
  "k \<notin> fst ` set pre \<Longrightarrow> AList.update k v' (pre @ (k, v) # r) = pre @ (k, v') # r"
  by (induction pre) auto

lemma enforce_node_consistency_loop_result:
  assumes "distinct vs" "set vs \<inter> fst ` set pre = {}" "distinct ws"
  shows "enforce_node_consistency_loop vs (pre @ map (\<lambda>v. (v, ws)) vs) =
           Inr (pre @ map (\<lambda>v. (v, filter (\<lambda>w. length w = var_length v) ws)) vs)"
  using assms(1,2)
proof (induction vs arbitrary: pre)
  case Nil
  then show ?case by simp
next
  case (Cons var rest)
  let ?nc = "filter (\<lambda>w. length w = var_length var) ws"
  have fresh: "var \<notin> fst ` set pre" using Cons.prems(2) by auto
  have get: "dict_get (pre @ map (\<lambda>v. (v, ws)) (var # rest)) var = Inr ws"
    using map_of_append_fresh[OF fresh, of ws "map (\<lambda>v. (v, ws)) rest"]
    by (simp add: dict_get_def)
  have upd: "dict_set (pre @ map (\<lambda>v. (v, ws)) (var # rest)) var ?nc =
             (pre @ [(var, ?nc)]) @ map (\<lambda>v. (v, ws)) rest"
    using update_append_fresh[OF fresh, of ?nc ws "map (\<lambda>v. (v, ws)) rest"]
    by (simp add: dict_set_def)
  have disj: "set rest \<inter> fst ` set (pre @ [(var, ?nc)]) = {}"
    using Cons.prems by auto
  have dist: "distinct rest" using Cons.prems(1) by simp
  have "enforce_node_consistency_loop (var # rest) (pre @ map (\<lambda>v. (v, ws)) (var # rest)) =
        enforce_node_consistency_loop rest ((pre @ [(var, ?nc)]) @ map (\<lambda>v. (v, ws)) rest)"
    using get upd node_consistent_loop_self[OF assms(3), of var] by simp
  also have "\<dots> = Inr ((pre @ [(var, ?nc)]) @
                 map (\<lambda>v. (v, filter (\<lambda>w. length w = var_length v) ws)) rest)"
    by (rule Cons.IH[OF dist disj])
  finally show ?case by simp
qed

lemma enforce_node_consistency_init:
  assumes "wf_crossword cw"
  shows "enforce_node_consistency (init_domains cw) =
           Inr (map (\<lambda>v. (v, filter (\<lambda>w. length w = var_length v) (words cw))) (variables cw))"
proof -
  from assms have d: "distinct (variables cw)" "distinct (words cw)"
    by (simp_all add: wf_crossword_def)
  have keys: "map fst (init_domains cw) = variables cw"
    by (simp add: init_domains_def comp_def)
  show ?thesis
    using enforce_node_consistency_loop_result[of "variables cw" "[]" "words cw"] d
    by (simp add: enforce_node_consistency_def keys) (simp add: init_domains_def)
qed

lemma good_domains_node_consistent:
  assumes "wf_crossword cw" "enforce_node_consistency (init_domains cw) = Inr doms"
  shows "good_domains cw doms"
proof -
  from assms have "doms = map (\<lambda>v. (v, filter (\<lambda>w. length w = var_length v) (words cw))) (variables cw)"
    by (simp add: enforce_node_consistency_init)
  moreover from assms(1) have "distinct (words cw)" by (simp add: wf_crossword_def)
  ultimately show ?thesis
    by (simp add: good_domains_def comp_def list_all_iff)
qed

subsection \<open>Invariants of AC-3\<close>

lemma neighbors_wf:
  assumes "wf_crossword cw" "x \<in> set (variables cw)" "y \<in> set (neighbors cw x)"
  shows "y \<in> set (variables cw) \<and> y \<noteq> x \<and> x \<in> set (neighbors cw y) \<and>
         (\<exists>ix iy. overlaps cw x y = Some (ix, iy) \<and> overlaps cw y x = Some (iy, ix) \<and>
                  ix < var_length x \<and> iy < var_length y)"
proof -
  from assms(3) have y: "y \<in> set (variables cw)" "y \<noteq> x" "overlaps cw y x \<noteq> None"
    by (auto simp: neighbors_def)
  then obtain a b where yx: "overlaps cw y x = Some (a, b)" by auto
  from assms(1) have "\<forall>p \<in> set (variables cw). \<forall>q \<in> set (variables cw).
        (case overlaps cw p q of
           None \<Rightarrow> overlaps cw q p = None
         | Some (ip, iq) \<Rightarrow>
             overlaps cw q p = Some (iq, ip) \<and> ip < var_length p \<and> iq < var_length q)"
    by (simp add: wf_crossword_def)
  with y(1) assms(2)
  have "case overlaps cw y x of
           None \<Rightarrow> overlaps cw x y = None
         | Some (ip, iq) \<Rightarrow>
             overlaps cw x y = Some (iq, ip) \<and> ip < var_length y \<and> iq < var_length x"
    by blast
  with yx have xy: "overlaps cw x y = Some (b, a)" "a < var_length y" "b < var_length x"
    by simp_all
  then have "x \<in> set (neighbors cw y)" using assms(2) y(2) by (simp add: neighbors_def)
  with y yx xy show ?thesis by simp
qed

lemma good_domains_lookup:
  assumes "good_domains cw doms" "x \<in> set (variables cw)"
  shows "\<exists>dx. map_of doms x = Some dx \<and> distinct dx \<and> (\<forall>w \<in> set dx. length w = var_length x)"
proof -
  from assms have "x \<in> fst ` set doms" by (metis good_domains_def set_map)
  then obtain dx where dx: "map_of doms x = Some dx"
    by (metis map_of_eq_None_iff not_Some_eq)
  then have "(x, dx) \<in> set doms" by (rule map_of_SomeD)
  with assms(1) have "distinct dx \<and> (\<forall>w \<in> set dx. length w = var_length x)"
    by (auto simp: good_domains_def list_all_iff)
  with dx show ?thesis by blast
qed

lemma set_update_subset: "set (AList.update k v al) \<subseteq> insert (k, v) (set al)"
  by (induction al) auto

lemma good_domains_dict_set:
  assumes "good_domains cw doms" "map_of doms x = Some dx" "distinct d'"
    "\<forall>w \<in> set d'. length w = var_length x"
  shows "good_domains cw (dict_set doms x d')"
proof -
  have keys: "map fst (dict_set doms x d') = variables cw"
    using assms(1) dict_set_keys[OF assms(2)] by (simp add: good_domains_def)
  have "\<forall>p \<in> set (dict_set doms x d'). distinct (snd p) \<and> (\<forall>w \<in> set (snd p). length w = var_length (fst p))"
  proof
    fix p assume "p \<in> set (dict_set doms x d')"
    then have "p = (x, d') \<or> p \<in> set doms"
      using set_update_subset[of x d' doms] by (auto simp: dict_set_def)
    then show "distinct (snd p) \<and> (\<forall>w \<in> set (snd p). length w = var_length (fst p))"
      using assms by (auto simp: good_domains_def list_all_iff)
  qed
  with keys show ?thesis by (simp add: good_domains_def list_all_iff)
qed

lemma revise_good:
  assumes wf: "wf_crossword cw" and good: "good_domains cw doms"
    and x: "x \<in> set (variables cw)" and y: "y \<in> set (neighbors cw x)"
  shows "\<exists>ix iy dx dy. overlaps cw x y = Some (ix, iy) \<and> overlaps cw y x = Some (iy, ix) \<and>
           map_of doms x = Some dx \<and> map_of doms y = Some dy \<and>
           revise cw doms x y =
             Inr (dict_set doms x (filter (supported ix iy dy) dx),
                  \<exists>w \<in> set dx. \<not> supported ix iy dy w)"
proof -
  from neighbors_wf[OF wf x y] obtain ix iy where yv: "y \<in> set (variables cw)"
    and ov: "overlaps cw x y = Some (ix, iy)" "overlaps cw y x = Some (iy, ix)"
    and lt: "ix < var_length x" "iy < var_length y" by blast
  from good_domains_lookup[OF good x] obtain dx where dx: "map_of doms x = Some dx"
    "distinct dx" "\<forall>w \<in> set dx. length w = var_length x" by blast
  from good_domains_lookup[OF good yv] obtain dy where dy: "map_of doms y = Some dy"
    "\<forall>w \<in> set dy. length w = var_length y" by blast
  have lx: "\<forall>w \<in> set dx. ix < length w" using dx(3) lt(1) by simp
  have ly: "\<forall>w \<in> set dy. iy < length w" using dy(2) lt(2) by simp
  from revise_result[OF ov(1) dx(1) dy(1) dx(2) lx ly] ov dx(1) dy(1)
  show ?thesis by blast
qed

lemma ac3_loop_snoc:
  assumes "revise cw doms x y = Inr (doms1, revised)" and "map_of doms1 x = Some dx1"
    and "y \<in> set (neighbors cw x)"
  shows "ac3_loop cw doms (as @ [(x, y)]) =
           (if revised \<and> dx1 = [] then Inr (doms1, False)
            else if revised
            then ac3_loop cw doms1 (as @ map (\<lambda>z. (z, x)) (removeAll y (neighbors cw x)))
            else ac3_loop cw doms1 as)"
  using assms by (subst ac3_loop.simps) (simp add: dict_get_def set_remove_def)

lemma good_arcs_requeue:
  assumes wf: "wf_crossword cw" and x: "x \<in> set (variables cw)" and "good_arcs cw as"
  shows "good_arcs cw (as @ map (\<lambda>z. (z, x)) (removeAll y (neighbors cw x)))"
proof -
  have "\<forall>z \<in> set (removeAll y (neighbors cw x)). z \<in> set (variables cw) \<and> x \<in> set (neighbors cw z)"
    using neighbors_wf[OF wf x] by auto
  with assms(3) show ?thesis by (auto simp: good_arcs_def list_all_iff)
qed

lemma ac3_loop_good:
  "wf_crossword cw \<Longrightarrow> good_domains cw doms \<Longrightarrow> good_arcs cw arcs \<Longrightarrow>
   \<exists>doms' b. ac3_loop cw doms arcs = Inr (doms', b) \<and> good_domains cw doms' \<and>
     (\<forall>v. map_of doms v = Some [] \<longrightarrow> map_of doms' v = Some [])"
proof (induction cw doms arcs rule: ac3_loop.induct)
  case (1 cw doms arcs)
  note wf = "1.prems"(1) and good = "1.prems"(2) and garcs = "1.prems"(3)
  show ?case
  proof (cases arcs rule: rev_cases)
    case Nil
    have "ac3_loop cw doms [] = Inr (doms, True)" by (subst ac3_loop.simps) simp
    with good Nil show ?thesis by blast
  next
    case (snoc as a)
    obtain x y where a: "a = (x, y)" by (cases a)
    from garcs snoc a have x: "x \<in> set (variables cw)" and y: "y \<in> set (neighbors cw x)"
      and gas: "good_arcs cw as" by (simp_all add: good_arcs_def)
    from revise_good[OF wf good x y] obtain ix iy dx dy where
      dx: "map_of doms x = Some dx" and dy: "map_of doms y = Some dy"
      and rev: "revise cw doms x y =
             Inr (dict_set doms x (filter (supported ix iy dy) dx),
                  \<exists>w \<in> set dx. \<not> supported ix iy dy w)" by blast
    let ?dx1 = "filter (supported ix iy dy) dx"
    let ?doms1 = "dict_set doms x ?dx1"
    let ?revised = "\<exists>w \<in> set dx. \<not> supported ix iy dy w"
    from good_domains_lookup[OF good x] dx
    have gdx: "distinct dx" "\<forall>w \<in> set dx. length w = var_length x" by auto
    have good1: "good_domains cw ?doms1"
      by (rule good_domains_dict_set[OF good dx]) (use gdx in auto)
    have dx1: "map_of ?doms1 x = Some ?dx1" by (simp add: map_of_dict_set)
    have keep: "\<forall>v. map_of doms v = Some [] \<longrightarrow> map_of ?doms1 v = Some []"
      using dx by (auto simp: map_of_dict_set)
    note step = ac3_loop_snoc[OF rev dx1 y, of as]
    have last: "fst (last arcs) = x" "snd (last arcs) = y" "butlast arcs = as" "0 < length arcs"
      using snoc a by simp_all
    have r1: "revise cw doms (fst (last arcs)) (snd (last arcs)) = Inr (?doms1, ?revised)"
      using rev last by simp
    show ?thesis
    proof (cases ?revised)
      case False
      have gas': "good_arcs cw (butlast arcs)" using gas last by simp
      have "\<exists>doms' b. ac3_loop cw ?doms1 (butlast arcs) = Inr (doms', b) \<and> good_domains cw doms' \<and>
              (\<forall>v. map_of ?doms1 v = Some [] \<longrightarrow> map_of doms' v = Some [])"
        by (rule "1.IH"(2)[OF last(4) r1 refl False wf good1 gas'])
      then obtain doms' b where res: "ac3_loop cw ?doms1 as = Inr (doms', b)"
        "good_domains cw doms'" "\<forall>v. map_of ?doms1 v = Some [] \<longrightarrow> map_of doms' v = Some []"
        unfolding last by blast
      have "ac3_loop cw doms arcs = Inr (doms', b)"
        using step False res(1) unfolding snoc a by simp
      with res(2,3) keep show ?thesis by blast
    next
      case True
      show ?thesis
      proof (cases "?dx1 = []")
        case e: True
        have "ac3_loop cw doms arcs = Inr (?doms1, False)"
          using step True e unfolding snoc a by simp
        with good1 keep show ?thesis by blast
      next
        case ne: False
        let ?ns = "removeAll y (neighbors cw x)"
        let ?arcs1 = "butlast arcs @ map (\<lambda>z. (z, fst (last arcs))) ?ns"
        have g1: "good_arcs cw ?arcs1"
          unfolding last by (rule good_arcs_requeue[OF wf x gas])
        have g: "dict_get ?doms1 (fst (last arcs)) = Inr ?dx1"
          using dx1 last by (simp add: dict_get_def)
        have n: "length ?dx1 \<noteq> 0" using ne by simp
        have sr: "set_remove (snd (last arcs)) (neighbors cw (fst (last arcs))) = Inr ?ns"
          using y last by (simp add: set_remove_def)
        have "\<exists>doms' b. ac3_loop cw ?doms1 ?arcs1 = Inr (doms', b) \<and> good_domains cw doms' \<and>
              (\<forall>v. map_of ?doms1 v = Some [] \<longrightarrow> map_of doms' v = Some [])"
          by (rule "1.IH"(1)[OF last(4) r1 refl True g n sr wf good1 g1])
        then obtain doms' b where
          res: "ac3_loop cw ?doms1 (as @ map (\<lambda>z. (z, x)) ?ns) = Inr (doms', b)"
          "good_domains cw doms'" "\<forall>v. map_of ?doms1 v = Some [] \<longrightarrow> map_of doms' v = Some []"
          unfolding last by blast
        have "ac3_loop cw doms arcs = Inr (doms', b)"
          using step True ne res(1) unfolding snoc a by simp
        with res(2,3) keep show ?thesis by blast
      qed
    qed
  qed
qed

lemma ac3_loop_Nil: "ac3_loop cw doms [] = Inr (doms, True)"
  by (subst ac3_loop.simps) simp

lemma arc_ok_cong:
  "map_of d1 p = map_of d2 p \<Longrightarrow> map_of d1 q = map_of d2 q \<Longrightarrow> arc_ok cw d1 p q = arc_ok cw d2 p q"
  by (simp add: arc_ok_def split: option.splits prod.splits)

lemma arc_ok_shrink:
  assumes "arc_ok cw doms x q" "map_of doms x = Some dx" "q \<noteq> x" "set dx' \<subseteq> set dx"
  shows "arc_ok cw (dict_set doms x dx') x q"
  using assms
  by (auto simp: arc_ok_def map_of_dict_set list_all_iff split: option.splits)

lemma arc_ok_revised:
  assumes "overlaps cw x y = Some (ix, iy)" "map_of doms x = Some dx" "map_of doms y = Some dy"
    "x \<noteq> y"
  shows "arc_ok cw (dict_set doms x (filter (supported ix iy dy) dx)) x y"
  using assms by (simp add: arc_ok_def map_of_dict_set list_all_iff)

lemma arc_ok_reverse:
  assumes ok: "arc_ok cw doms y x"
    and ov: "overlaps cw x y = Some (ix, iy)" "overlaps cw y x = Some (iy, ix)"
    and d: "map_of doms x = Some dx" "map_of doms y = Some dy" and ne: "x \<noteq> y"
  shows "arc_ok cw (dict_set doms x (filter (supported ix iy dy) dx)) y x"
proof -
  from ok ov d have all: "\<forall>b \<in> set dy. supported iy ix dx b"
    by (simp add: arc_ok_def list_all_iff)
  have "\<forall>b \<in> set dy. supported iy ix (filter (supported ix iy dy) dx) b"
  proof
    fix b assume b: "b \<in> set dy"
    with all obtain a where a: "a \<in> set dx" "b ! iy = a ! ix" "b \<noteq> a"
      by (auto simp: supported_def)
    have "supported ix iy dy a"
      unfolding supported_def using a b by (intro bexI[of _ b]) auto
    with a show "supported iy ix (filter (supported ix iy dy) dx) b"
      by (auto simp: supported_def)
  qed
  with ov d ne show ?thesis by (simp add: arc_ok_def map_of_dict_set list_all_iff)
qed

lemma arc_invariant_requeue:
  assumes wf: "wf_crossword cw" and x: "x \<in> set (variables cw)" and y: "y \<in> set (neighbors cw x)"
    and ov: "overlaps cw x y = Some (ix, iy)" "overlaps cw y x = Some (iy, ix)"
    and d: "map_of doms x = Some dx" "map_of doms y = Some dy"
    and inv: "\<forall>p \<in> set (variables cw). \<forall>q \<in> set (neighbors cw p).
                (p, q) \<in> set (as @ [(x, y)]) \<or> arc_ok cw doms p q"
  shows "\<forall>p \<in> set (variables cw). \<forall>q \<in> set (neighbors cw p).
           (p, q) \<in> set (as @ map (\<lambda>z. (z, x)) (removeAll y (neighbors cw x))) \<or>
           arc_ok cw (dict_set doms x (filter (supported ix iy dy) dx)) p q"
proof (intro ballI)
  fix p q assume p: "p \<in> set (variables cw)" and q: "q \<in> set (neighbors cw p)"
  let ?d1 = "dict_set doms x (filter (supported ix iy dy) dx)"
  let ?new = "as @ map (\<lambda>z. (z, x)) (removeAll y (neighbors cw x))"
  from neighbors_wf[OF wf x y] have ne: "x \<noteq> y" by auto
  from neighbors_wf[OF wf p q] have qp: "q \<noteq> p" "p \<in> set (neighbors cw q)" by auto
  from inv p q have pq: "(p, q) \<in> set (as @ [(x, y)]) \<or> arc_ok cw doms p q" by blast
  show "(p, q) \<in> set ?new \<or> arc_ok cw ?d1 p q"
  proof (cases "q = x")
    case True
    show ?thesis
    proof (cases "p = y")
      case False
      with True qp have "(p, q) \<in> set ?new" by simp
      then show ?thesis ..
    next
      case py: True
      from pq show ?thesis
      proof
        assume "(p, q) \<in> set (as @ [(x, y)])"
        with True py ne have "(p, q) \<in> set as" by auto
        then show ?thesis by simp
      next
        assume "arc_ok cw doms p q"
        with True py have "arc_ok cw doms y x" by simp
        from arc_ok_reverse[OF this ov d ne] True py show ?thesis by simp
      qed
    qed
  next
    case qx: False
    show ?thesis
    proof (cases "p = x")
      case True
      show ?thesis
      proof (cases "q = y")
        case True
        with \<open>p = x\<close> arc_ok_revised[OF ov(1) d ne] show ?thesis by simp
      next
        case False
        from pq show ?thesis
        proof
          assume "(p, q) \<in> set (as @ [(x, y)])"
          with False have "(p, q) \<in> set as" by auto
          then show ?thesis by simp
        next
          assume "arc_ok cw doms p q"
          with True have "arc_ok cw doms x q" by simp
          from arc_ok_shrink[OF this d(1) qx, of "filter (supported ix iy dy) dx"] True
          show ?thesis by simp
        qed
      qed
    next
      case px: False
      from pq show ?thesis
      proof
        assume "(p, q) \<in> set (as @ [(x, y)])"
        with px have "(p, q) \<in> set as" by auto
        then show ?thesis by simp
      next
        assume ok: "arc_ok cw doms p q"
        have "arc_ok cw ?d1 p q = arc_ok cw doms p q"
          using px qx by (intro arc_ok_cong) (simp_all add: map_of_dict_set)
        with ok show ?thesis by simp
      qed
    qed
  qed
qed

lemma arc_invariant_unrevised:
  assumes wf: "wf_crossword cw" and x: "x \<in> set (variables cw)" and y: "y \<in> set (neighbors cw x)"
    and ov: "overlaps cw x y = Some (ix, iy)"
    and d: "map_of doms x = Some dx" "map_of doms y = Some dy"
    and unrev: "\<not> (\<exists>w \<in> set dx. \<not> supported ix iy dy w)"
    and inv: "\<forall>p \<in> set (variables cw). \<forall>q \<in> set (neighbors cw p).
                (p, q) \<in> set (as @ [(x, y)]) \<or> arc_ok cw doms p q"
  shows "\<forall>p \<in> set (variables cw). \<forall>q \<in> set (neighbors cw p).
           (p, q) \<in> set as \<or>
           arc_ok cw (dict_set doms x (filter (supported ix iy dy) dx)) p q"
proof (intro ballI)
  fix p q assume p: "p \<in> set (variables cw)" and q: "q \<in> set (neighbors cw p)"
  let ?d1 = "dict_set doms x (filter (supported ix iy dy) dx)"
  from unrev have same: "filter (supported ix iy dy) dx = dx" by (simp add: filter_id_conv)
  have m: "map_of ?d1 = map_of doms"
    using d(1) by (simp add: same map_of_dict_set fun_upd_idem)
  have eq: "arc_ok cw ?d1 p q = arc_ok cw doms p q" by (intro arc_ok_cong) (simp_all add: m)
  from neighbors_wf[OF wf x y] have ne: "x \<noteq> y" by auto
  have xy: "arc_ok cw doms x y"
    using unrev ov d by (simp add: arc_ok_def list_all_iff)
  from inv p q have "(p, q) \<in> set (as @ [(x, y)]) \<or> arc_ok cw doms p q" by blast
  then show "(p, q) \<in> set as \<or> arc_ok cw ?d1 p q"
    using xy eq by auto
qed

lemma ac3_loop_sound:
  "wf_crossword cw \<Longrightarrow> good_domains cw doms \<Longrightarrow> good_arcs cw arcs \<Longrightarrow>
   (\<forall>p \<in> set (variables cw). \<forall>q \<in> set (neighbors cw p).
      (p, q) \<in> set arcs \<or> arc_ok cw doms p q) \<Longrightarrow>
   ac3_loop cw doms arcs = Inr (doms', True) \<Longrightarrow> arc_consistent cw doms'"
proof (induction cw doms arcs rule: ac3_loop.induct)
  case (1 cw doms arcs)
  note wf = "1.prems"(1) and good = "1.prems"(2) and garcs = "1.prems"(3)
    and inv = "1.prems"(4) and res = "1.prems"(5)
  show ?case
  proof (cases arcs rule: rev_cases)
    case Nil
    with res have "doms' = doms" by (simp add: ac3_loop_Nil)
    with inv Nil show ?thesis by (simp add: arc_consistent_def list_all_iff)
  next
    case (snoc as a)
    obtain x y where a: "a = (x, y)" by (cases a)
    from garcs snoc a have x: "x \<in> set (variables cw)" and y: "y \<in> set (neighbors cw x)"
      and gas: "good_arcs cw as" by (simp_all add: good_arcs_def)
    from revise_good[OF wf good x y] obtain ix iy dx dy where
      ov: "overlaps cw x y = Some (ix, iy)" "overlaps cw y x = Some (iy, ix)"
      and dx: "map_of doms x = Some dx" and dy: "map_of doms y = Some dy"
      and rev: "revise cw doms x y =
             Inr (dict_set doms x (filter (supported ix iy dy) dx),
                  \<exists>w \<in> set dx. \<not> supported ix iy dy w)" by blast
    let ?dx1 = "filter (supported ix iy dy) dx"
    let ?doms1 = "dict_set doms x ?dx1"
    let ?revised = "\<exists>w \<in> set dx. \<not> supported ix iy dy w"
    from good_domains_lookup[OF good x] dx
    have gdx: "distinct dx" "\<forall>w \<in> set dx. length w = var_length x" by auto
    have good1: "good_domains cw ?doms1"
      by (rule good_domains_dict_set[OF good dx]) (use gdx in auto)
    have dx1: "map_of ?doms1 x = Some ?dx1" by (simp add: map_of_dict_set)
    note step = ac3_loop_snoc[OF rev dx1 y, of as]
    have last: "fst (last arcs) = x" "snd (last arcs) = y" "butlast arcs = as" "0 < length arcs"
      using snoc a by simp_all
    have r1: "revise cw doms (fst (last arcs)) (snd (last arcs)) = Inr (?doms1, ?revised)"
      using rev last by simp
    have inv': "\<forall>p \<in> set (variables cw). \<forall>q \<in> set (neighbors cw p).
                (p, q) \<in> set (as @ [(x, y)]) \<or> arc_ok cw doms p q"
      using inv snoc a by simp
    show ?thesis
    proof (cases ?revised)
      case False
      have gas': "good_arcs cw (butlast arcs)" using gas last by simp
      have i1: "\<forall>p \<in> set (variables cw). \<forall>q \<in> set (neighbors cw p).
                (p, q) \<in> set (butlast arcs) \<or> arc_ok cw ?doms1 p q"
        unfolding last by (rule arc_invariant_unrevised[OF wf x y ov(1) dx dy False inv'])
      have r: "ac3_loop cw ?doms1 (butlast arcs) = Inr (doms', True)"
        using step False res unfolding snoc a last(3)[unfolded snoc a] by simp
      show ?thesis
        by (rule "1.IH"(2)[OF last(4) r1 refl False wf good1 gas' i1 r])
    next
      case True
      show ?thesis
      proof (cases "?dx1 = []")
        case e: True
        have "ac3_loop cw doms arcs = Inr (?doms1, False)"
          using step True e unfolding snoc a by simp
        with res show ?thesis by simp
      next
        case ne: False
        let ?ns = "removeAll y (neighbors cw x)"
        let ?arcs1 = "butlast arcs @ map (\<lambda>z. (z, fst (last arcs))) ?ns"
        have g1: "good_arcs cw ?arcs1"
          unfolding last by (rule good_arcs_requeue[OF wf x gas])
        have g: "dict_get ?doms1 (fst (last arcs)) = Inr ?dx1"
          using dx1 last by (simp add: dict_get_def)
        have n: "length ?dx1 \<noteq> 0" using ne by simp
        have sr: "set_remove (snd (last arcs)) (neighbors cw (fst (last arcs))) = Inr ?ns"
          using y last by (simp add: set_remove_def)
        have i1: "\<forall>p \<in> set (variables cw). \<forall>q \<in> set (neighbors cw p).
                (p, q) \<in> set ?arcs1 \<or> arc_ok cw ?doms1 p q"
          unfolding last by (rule arc_invariant_requeue[OF wf x y ov dx dy inv'])
        have r: "ac3_loop cw ?doms1 ?arcs1 = Inr (doms', True)"
          using step True ne res unfolding snoc a last[unfolded snoc a] by simp
        show ?thesis
          by (rule "1.IH"(1)[OF last(4) r1 refl True g n sr wf good1 g1 i1 r])
      qed
    qed
  qed
qed

lemma good_arcs_all:
  assumes "good_domains cw doms"
  shows "good_arcs cw (all_arcs cw doms)"
  using assms by (auto simp: good_arcs_def all_arcs_def good_domains_def list_all_iff)

lemma ac3_all_sound:
  assumes "wf_crossword cw" "good_domains cw doms" "ac3 cw doms None = Inr (doms', True)"
  shows "arc_consistent cw doms'"
proof -
  have keys: "map fst doms = variables cw" using assms(2) by (simp add: good_domains_def)
  have inv: "\<forall>p \<in> set (variables cw). \<forall>q \<in> set (neighbors cw p).
      (p, q) \<in> set (all_arcs cw doms) \<or> arc_ok cw doms p q"
    by (auto simp: all_arcs_def keys)
  from assms(3) have "ac3_loop cw doms (all_arcs cw doms) = Inr (doms', True)"
    by (simp add: ac3_def)
  with assms(1,2) good_arcs_all[OF assms(2)] inv show ?thesis
    by (rule ac3_loop_sound)
qed

text \<open>
  Claim C8, as the source has it. When \<open>ac3\<close> is called without initial arcs on a
  node-consistent domain store and returns true, every arc is consistent: for all
  neighbouring variables \<open>x\<close> and \<open>y\<close> and every word left in the domain of \<open>x\<close>,
  some word of the domain of \<open>y\<close> agrees with it at the overlap and is a different word.
\<close>

theorem ac3_arc_consistent:
  assumes "wf_crossword cw" and "good_domains cw doms" and "ac3 cw doms None = Inr (doms', True)"
  shows "\<forall>x \<in> set (variables cw). \<forall>y \<in> set (neighbors cw x).
           \<exists>ix iy dx dy. overlaps cw x y = Some (ix, iy) \<and>
             map_of doms' x = Some dx \<and> map_of doms' y = Some dy \<and>
             (\<forall>w \<in> set dx. \<exists>w' \<in> set dy. w ! ix = w' ! iy \<and> w \<noteq> w')"
proof (intro ballI)
  fix x y assume "x \<in> set (variables cw)" "y \<in> set (neighbors cw x)"
  moreover from assms have "arc_consistent cw doms'" by (rule ac3_all_sound)
  ultimately have "arc_ok cw doms' x y" by (simp add: arc_consistent_def list_all_iff)
  then show "\<exists>ix iy dx dy. overlaps cw x y = Some (ix, iy) \<and>
             map_of doms' x = Some dx \<and> map_of doms' y = Some dy \<and>
             (\<forall>w \<in> set dx. \<exists>w' \<in> set dy. w ! ix = w' ! iy \<and> w \<noteq> w')"
    by (auto simp: arc_ok_def list_all_iff supported_def split: option.splits)
qed

theorem ac3_arc_consistent_witness:
  "\<exists>ix iy dx dy. overlaps cross_puzzle slot_A slot_B = Some (ix, iy) \<and>
     map_of cross_ac_domains slot_A = Some dx \<and> map_of cross_ac_domains slot_B = Some dy \<and>
     (\<forall>w \<in> set dx. \<exists>w' \<in> set dy. w ! ix = w' ! iy \<and> w \<noteq> w')"
proof -
  have wf: "wf_crossword cross_puzzle" by code_simp
  have good: "good_domains cross_puzzle cross_raw_domains" by code_simp
  have res: "ac3 cross_puzzle cross_raw_domains None = Inr (cross_ac_domains, True)" by code_simp
  have x: "slot_A \<in> set (variables cross_puzzle)" by code_simp
  have y: "slot_B \<in> set (neighbors cross_puzzle slot_A)" by code_simp
  from ac3_arc_consistent[OF wf good res] x y show ?thesis by blast
qed

text \<open>
  The claim C8 as stated fails for a call with initial arcs, which examines the given arcs
  and those it appends only. On \<open>cross_puzzle\<close> the call with the single arc
  \<open>(slot_B, slot_A)\<close>, the list that the search builds when it commits \<open>slot_A\<close>,
  returns true, and afterwards the word \<open>ART\<close> of \<open>slot_A\<close> has no support in the
  domain of \<open>slot_B\<close>.
\<close>

theorem ac3_seeded_not_arc_consistent:
  "ac3 cross_puzzle cross_raw_domains (Some [(slot_B, slot_A)]) = Inr (cross_seeded_domains, True) \<and>
   slot_B \<in> set (neighbors cross_puzzle slot_A) \<and>
   overlaps cross_puzzle slot_A slot_B = Some (1, 0) \<and>
   map_of cross_seeded_domains slot_A = Some [''CAT'', ''ART''] \<and>
   map_of cross_seeded_domains slot_B = Some [''ART''] \<and>
   \<not> (\<exists>w' \<in> set [''ART'']. ''ART'' ! 1 = w' ! 0 \<and> ''ART'' \<noteq> w')"
  by code_simp

subsection \<open>An empty domain after node consistency\<close>

lemma dict_set_key_set: "map_of d k = Some old \<Longrightarrow> fst ` set (dict_set d k v) = fst ` set d"
  using dict_set_keys[of d k old v] by (metis set_map)

lemma root_loop_total:
  assumes "set vs \<subseteq> fst ` set doms" "set vs \<subseteq> fst ` set asg"
  shows "\<exists>doms1 asg1. root_loop vs doms asg = Inr (doms1, asg1) \<and>
           map fst doms1 = map fst doms \<and> map fst asg1 = map fst asg \<and>
           (\<forall>v. map_of doms v = Some [] \<longrightarrow>
                map_of doms1 v = Some [] \<and> map_of asg1 v = map_of asg v)"
  using assms
proof (induction vs arbitrary: doms asg)
  case Nil
  then show ?case by simp
next
  case (Cons u vs)
  from Cons.prems(1) obtain du where du: "map_of doms u = Some du"
    by (metis list.set_intros(1) map_of_eq_None_iff not_Some_eq subsetD)
  from Cons.prems(2) obtain au where au: "map_of asg u = Some au"
    by (metis list.set_intros(1) map_of_eq_None_iff not_Some_eq subsetD)
  show ?case
  proof (cases "\<exists>w. du = [w]")
    case True
    then obtain w where w: "du = [w]" by blast
    let ?d = "dict_set doms u []" and ?a = "dict_set asg u (Some w)"
    have step: "root_loop (u # vs) doms asg = root_loop vs ?d ?a"
      using du w by (simp add: dict_get_def)
    have kd: "map fst ?d = map fst doms" using du by (rule dict_set_keys)
    have ka: "map fst ?a = map fst asg" using au by (rule dict_set_keys)
    have p1: "set vs \<subseteq> fst ` set ?d" using Cons.prems(1) dict_set_key_set[OF du] by auto
    have p2: "set vs \<subseteq> fst ` set ?a" using Cons.prems(2) dict_set_key_set[OF au] by auto
    from Cons.IH[OF p1 p2] obtain doms1 asg1 where r: "root_loop vs ?d ?a = Inr (doms1, asg1)"
      "map fst doms1 = map fst ?d" "map fst asg1 = map fst ?a"
      "\<forall>v. map_of ?d v = Some [] \<longrightarrow> map_of doms1 v = Some [] \<and> map_of asg1 v = map_of ?a v"
      by blast
    have "\<forall>v. map_of doms v = Some [] \<longrightarrow> map_of doms1 v = Some [] \<and> map_of asg1 v = map_of asg v"
    proof (intro allI impI)
      fix v assume v: "map_of doms v = Some []"
      with du w have "v \<noteq> u" by auto
      with v r(4) show "map_of doms1 v = Some [] \<and> map_of asg1 v = map_of asg v"
        by (simp add: map_of_dict_set)
    qed
    with step r(1,2,3) kd ka show ?thesis by simp
  next
    case False
    then have step: "root_loop (u # vs) doms asg = root_loop vs doms asg"
      using du by (cases du rule: list.exhaust[case_names Nil Cons]; cases "tl du")
                  (auto simp: dict_get_def split: list.splits)
    from Cons.prems have p: "set vs \<subseteq> fst ` set doms" "set vs \<subseteq> fst ` set asg" by auto
    from Cons.IH[OF p] step show ?thesis by simp
  qed
qed

lemma backtrack_empty_domain:
  assumes good: "good_domains cw doms" and e: "map_of doms v = Some []"
  shows "\<exists>st. backtrack (Suc n) cw doms [] = Returned (st, None)"
proof -
  let ?asg0 = "map (\<lambda>var. (var, None :: string option)) (variables cw)"
  have keys: "map fst doms = variables cw" using good by (simp add: good_domains_def)
  have vin: "v \<in> set (variables cw)"
    using e keys by (metis map_of_eq_None_iff option.distinct(1) set_map)
  have k0: "map fst ?asg0 = variables cw" by (simp add: comp_def)
  have p1: "set (variables cw) \<subseteq> fst ` set doms" using keys by (metis set_map subset_refl)
  have p2: "set (variables cw) \<subseteq> fst ` set ?asg0" by force
  from root_loop_total[OF p1 p2] obtain doms1 asg1 where
    r: "root_loop (variables cw) doms ?asg0 = Inr (doms1, asg1)"
    and kd: "map fst doms1 = map fst doms" and ka: "map fst asg1 = map fst ?asg0"
    and keep: "\<forall>u. map_of doms u = Some [] \<longrightarrow>
                 map_of doms1 u = Some [] \<and> map_of asg1 u = map_of ?asg0 u" by blast
  have a0: "map_of ?asg0 v = Some None" using vin by (simp add: map_of_map_restrict)
  from keep e a0 have d1: "map_of doms1 v = Some []" and a1: "map_of asg1 v = Some None" by auto
  from a1 have "(v, None) \<in> set asg1" by (rule map_of_SomeD)
  then have nc: "\<not> assignment_complete asg1"
    by (force simp: assignment_complete_def list_all_iff)
  have hasdom: "\<forall>u. map_of asg1 u = Some None \<longrightarrow> map_of doms1 u \<noteq> None"
  proof (intro allI impI)
    fix u assume "map_of asg1 u = Some None"
    then have "u \<in> set (map fst asg1)" by (metis map_of_eq_None_iff option.distinct(1) set_map)
    then have "u \<in> set (map fst doms1)" using ka kd keys k0 by simp
    then show "map_of doms1 u \<noteq> None" by (simp add: map_of_eq_None_iff)
  qed
  have un: "\<exists>u. map_of asg1 u = Some None" using a1 by blast
  from select_unassigned_variable_minimal[OF hasdom un, of cw] obtain s ds where
    sel: "select_unassigned_variable cw doms1 asg1 = Inr s" and ds: "map_of doms1 s = Some ds"
    and best: "\<forall>u du. map_of asg1 u = Some None \<and> map_of doms1 u = Some du \<longrightarrow>
                 length ds \<le> length du" by blast
  from best a1 d1 have "length ds \<le> length ([] :: string list)" by blast
  then have dse: "ds = []" by simp
  have odv: "order_domain_values cw doms1 s = Inr []"
    using ds dse by (simp add: order_domain_values_def dict_get_def)
  have ne: "variables cw \<noteq> []" using vin by auto
  have "backtrack (Suc n) cw doms [] = Returned ((doms1, asg1), None)"
    using r nc sel odv by simp
  then show ?thesis by blast
qed

text \<open>
  Claim C5. If node consistency leaves some variable with an empty domain, \<open>solve\<close>
  returns \<open>None\<close>, whether or not the variable has neighbours and whatever \<open>ac3\<close>
  returns: the variable stays unassigned, the selection takes a variable with an empty
  domain, and the candidate loop has nothing to try.
\<close>

theorem solve_empty_domain_no_solution:
  assumes "wf_crossword cw" and "enforce_node_consistency (init_domains cw) = Inr doms"
    and "map_of doms v = Some []"
  shows "\<exists>st. solve cw = Returned (st, None)"
proof -
  from assms(1,2) have good: "good_domains cw doms" by (rule good_domains_node_consistent)
  have arcs: "good_arcs cw (all_arcs cw doms)" using good by (rule good_arcs_all)
  from ac3_loop_good[OF assms(1) good arcs] obtain doms' b where
    ac: "ac3 cw doms None = Inr (doms', b)" and good': "good_domains cw doms'"
    and keep: "\<forall>u. map_of doms u = Some [] \<longrightarrow> map_of doms' u = Some []"
    by (auto simp: ac3_def)
  from keep assms(3) have e': "map_of doms' v = Some []" by blast
  from backtrack_empty_domain[OF good' e', of "length (variables cw)"] obtain st where
    "backtrack (Suc (length (variables cw))) cw doms' [] = Returned (st, None)" by blast
  with assms(2) ac show ?thesis by (simp add: solve_def)
qed

theorem solve_empty_domain_no_solution_witness:
  "\<exists>st. solve chain_puzzle_short = Returned (st, None)"
proof (rule solve_empty_domain_no_solution)
  show "wf_crossword chain_puzzle_short" by code_simp
  show "enforce_node_consistency (init_domains chain_puzzle_short) = Inr chain_short_domains"
    by code_simp
  show "map_of chain_short_domains slot_Z = Some []" by code_simp
qed


subsection \<open>The bound on the recursion of the search\<close>

text \<open>
  A call of \<open>backtrack\<close> never unassigns a variable, and every recursive call follows
  the assignment of a variable that the selection found unassigned. The counter that
  \<open>solve\<close> starts with, one more than the number of variables, is therefore never used
  up: \<open>OutOfFuel\<close> is not a result of \<open>solve\<close>.
\<close>

lemma finite_unassigned: "finite (unassigned asg)"
proof (rule finite_subset)
  show "unassigned asg \<subseteq> dom (map_of asg)" by (auto simp: unassigned_def)
  show "finite (dom (map_of asg))" by (rule finite_dom_map_of)
qed

lemma unassigned_dict_set: "unassigned (dict_set asg k (Some w)) = unassigned asg - {k}"
  by (auto simp: unassigned_def map_of_dict_set)

lemma inference_loop_monotone:
  "inference_loop vs doms asg = Inr (doms', asg') \<Longrightarrow>
   unassigned asg' \<subseteq> unassigned asg \<and> map fst asg' = map fst asg"
proof (induction vs arbitrary: doms asg)
  case Nil
  then show ?case by simp
next
  case (Cons u vs)
  from Cons.prems obtain a where a: "map_of asg u = Some a"
    by (auto simp: dict_get_def split: option.splits)
  show ?case
  proof (cases a)
    case (Some y)
    with Cons.prems a have "inference_loop vs doms asg = Inr (doms', asg')"
      by (simp add: dict_get_def)
    then show ?thesis by (rule Cons.IH)
  next
    case None
    from Cons.prems a None obtain du where du: "map_of doms u = Some du"
      by (auto simp: dict_get_def split: option.splits)
    show ?thesis
    proof (cases "\<exists>x. du = [x]")
      case True
      then obtain x where x: "du = [x]" by blast
      from Cons.prems a None du x
      have "inference_loop vs (dict_set doms u []) (dict_set asg u (Some x)) = Inr (doms', asg')"
        by (simp add: dict_get_def)
      from Cons.IH[OF this] dict_set_keys[OF a, of "Some x"] show ?thesis
        by (auto simp: unassigned_dict_set)
    next
      case False
      with Cons.prems a None du have "inference_loop vs doms asg = Inr (doms', asg')"
        by (cases du rule: list.exhaust[case_names Nil Cons]; cases "tl du")
           (auto simp: dict_get_def split: list.splits)
      then show ?thesis by (rule Cons.IH)
    qed
  qed
qed

lemma root_loop_monotone:
  "root_loop vs doms asg = Inr (doms', asg') \<Longrightarrow> set vs \<subseteq> fst ` set asg \<Longrightarrow>
   unassigned asg' \<subseteq> unassigned asg \<and> map fst asg' = map fst asg"
proof (induction vs arbitrary: doms asg)
  case Nil
  then show ?case by simp
next
  case (Cons u vs)
  from Cons.prems(1) obtain du where du: "map_of doms u = Some du"
    by (auto simp: dict_get_def split: option.splits)
  from Cons.prems(2) obtain au where au: "map_of asg u = Some au"
    by (metis list.set_intros(1) map_of_eq_None_iff not_Some_eq subsetD)
  show ?case
  proof (cases "\<exists>x. du = [x]")
    case True
    then obtain x where x: "du = [x]" by blast
    from Cons.prems(1) du x
    have r: "root_loop vs (dict_set doms u []) (dict_set asg u (Some x)) = Inr (doms', asg')"
      by (simp add: dict_get_def)
    have k: "map fst (dict_set asg u (Some x)) = map fst asg" using au by (rule dict_set_keys)
    have "set vs \<subseteq> fst ` set (dict_set asg u (Some x))"
      using Cons.prems(2) k by (metis list.set_intros(2) set_map subsetD subsetI)
    from Cons.IH[OF r this] k show ?thesis by (auto simp: unassigned_dict_set)
  next
    case False
    with Cons.prems(1) du have "root_loop vs doms asg = Inr (doms', asg')"
      by (cases du rule: list.exhaust[case_names Nil Cons]; cases "tl du")
         (auto simp: dict_get_def split: list.splits)
    moreover from Cons.prems(2) have "set vs \<subseteq> fst ` set asg" by auto
    ultimately show ?thesis by (rule Cons.IH)
  qed
qed

lemma select_loop_unassigned:
  "select_loop cw doms asg vs (m, sel) = Inr (m', sel') \<Longrightarrow>
   (\<forall>s. sel = Some s \<longrightarrow> s \<in> unassigned asg) \<Longrightarrow>
   (\<forall>s. sel' = Some s \<longrightarrow> s \<in> unassigned asg)"
proof (induction vs arbitrary: m sel)
  case Nil
  then show ?case by simp
next
  case (Cons var rest)
  from Cons.prems(1) obtain a where a: "map_of asg var = Some a"
    by (auto simp: dict_get_def split: option.splits)
  show ?case
  proof (cases a)
    case (Some w)
    with Cons.prems(1) a have "select_loop cw doms asg rest (m, sel) = Inr (m', sel')"
      by (simp add: dict_get_def)
    then show ?thesis using Cons.prems(2) by (rule Cons.IH)
  next
    case None
    with a have u: "var \<in> unassigned asg" by (simp add: unassigned_def)
    from Cons.prems(1) a None obtain dv where dv: "map_of doms var = Some dv"
      by (auto simp: dict_get_def split: option.splits)
    from Cons.prems(1) a None dv
    consider "select_loop cw doms asg rest (enat (length dv), Some var) = Inr (m', sel')"
      | "select_loop cw doms asg rest (m, sel) = Inr (m', sel')"
      by (auto simp: dict_get_def split: if_splits option.splits)
    then show ?thesis
    proof cases
      case 1
      then show ?thesis by (rule Cons.IH) (use u in simp)
    next
      case 2
      then show ?thesis using Cons.prems(2) by (rule Cons.IH)
    qed
  qed
qed

lemma select_unassigned_variable_unassigned:
  assumes "select_unassigned_variable cw doms asg = Inr s"
  shows "s \<in> unassigned asg"
proof -
  from assms obtain m where "select_loop cw doms asg (map fst asg) (\<infinity>, None) = Inr (m, Some s)"
    by (auto simp: select_unassigned_variable_def split: sum.splits option.splits)
  from select_loop_unassigned[OF this] show ?thesis by simp
qed

lemma backtrack_loop_monotone:
  assumes bt: "\<And>doms asg d' a' r. backtrack n cw doms asg = Returned ((d', a'), r) \<Longrightarrow>
      unassigned a' \<subseteq> unassigned (start_assignment cw asg) \<and>
      map fst a' = map fst (start_assignment cw asg)"
  shows "backtrack_loop n cw var vals doms asg = Returned ((d', a'), r) \<Longrightarrow>
         map_of asg var \<noteq> None \<Longrightarrow>
         unassigned a' \<subseteq> unassigned asg \<and> map fst a' = map fst asg"
proof (induction vals arbitrary: doms asg)
  case Nil
  then show ?case by simp
next
  case (Cons "value" rest)
  let ?asgv = "dict_set asg var (Some value)"
  from Cons.prems(2) obtain old where old: "map_of asg var = Some old" by auto
  have kv: "map fst ?asgv = map fst asg" using old by (rule dict_set_keys)
  from Cons.prems(1) obtain ok where ok: "consistent cw ?asgv = Inr ok"
    by (auto split: sum.splits)
  show ?case
  proof (cases ok)
    case False
    with Cons.prems(1) ok obtain doms1 where
      "backtrack_loop n cw var rest doms1 asg = Returned ((d', a'), r)"
      by (auto split: sum.splits)
    then show ?thesis using Cons.prems(2) by (rule Cons.IH)
  next
    case True
    with Cons.prems(1) ok obtain doms1 inferences doms2 asg2 where
      inf: "(if inferences then inference_loop (map fst ?asgv) doms1 ?asgv
            else Inr (doms1, ?asgv)) = Inr (doms2, asg2)"
      and rest: "(case backtrack n cw doms2 asg2 of
                    Raised e \<Rightarrow> Raised e
                  | OutOfFuel \<Rightarrow> OutOfFuel
                  | Returned (st3, Some res) \<Rightarrow> Returned (st3, Some res)
                  | Returned ((doms3, asg3), None) \<Rightarrow>
                      (case remove_value doms3 var value of
                         Inl e \<Rightarrow> Raised e
                       | Inr doms4 \<Rightarrow> backtrack_loop n cw var rest doms4 asg3))
                 = Returned ((d', a'), r)"
      by (auto split: sum.splits prod.splits)
    have a2: "unassigned asg2 \<subseteq> unassigned asg \<and> map fst asg2 = map fst asg"
    proof (cases inferences)
      case True
      with inf have "inference_loop (map fst ?asgv) doms1 ?asgv = Inr (doms2, asg2)" by simp
      from inference_loop_monotone[OF this] kv show ?thesis
        by (auto simp: unassigned_dict_set)
    next
      case False
      with inf kv show ?thesis by (auto simp: unassigned_dict_set)
    qed
    from old have "asg \<noteq> []" by auto
    with a2 have ne2: "asg2 \<noteq> []" by (metis map_is_Nil_conv)
    then have st2: "start_assignment cw asg2 = asg2" by (simp add: start_assignment_def)
    from rest obtain d3 a3 r3 where b: "backtrack n cw doms2 asg2 = Returned ((d3, a3), r3)"
      by (cases "backtrack n cw doms2 asg2") (auto split: prod.splits)
    from bt[OF b] st2 a2
    have a3: "unassigned a3 \<subseteq> unassigned asg" "map fst a3 = map fst asg" by auto
    show ?thesis
    proof (cases r3)
      case (Some res)
      with rest b have "d' = d3" "a' = a3" by simp_all
      with a3 show ?thesis by simp
    next
      case None
      with rest b obtain doms4 where
        l: "backtrack_loop n cw var rest doms4 a3 = Returned ((d', a'), r)"
        by (auto split: sum.splits)
      have "map_of a3 var \<noteq> None"
        using a3(2) old by (metis map_of_eq_None_iff option.distinct(1) set_map)
      from Cons.IH[OF l this] a3 show ?thesis by auto
    qed
  qed
qed

lemma backtrack_monotone:
  "backtrack n cw doms asg = Returned ((d', a'), r) \<Longrightarrow>
   unassigned a' \<subseteq> unassigned (start_assignment cw asg) \<and>
   map fst a' = map fst (start_assignment cw asg)"
proof (induction n arbitrary: doms asg d' a' r)
  case 0
  then show ?case by simp
next
  case (Suc n)
  let ?a0 = "start_assignment cw asg"
  from Suc.prems obtain doms1 asg1 where
    s1: "(if asg = [] then root_loop (variables cw) doms (map (\<lambda>var. (var, None)) (variables cw))
          else Inr (doms, asg)) = Inr (doms1, asg1)"
    by (auto split: sum.splits)
  have m1: "unassigned asg1 \<subseteq> unassigned ?a0 \<and> map fst asg1 = map fst ?a0"
  proof (cases "asg = []")
    case True
    with s1 have "root_loop (variables cw) doms (map (\<lambda>var. (var, None)) (variables cw))
        = Inr (doms1, asg1)" by simp
    from root_loop_monotone[OF this] True show ?thesis
      by (force simp: start_assignment_def)
  next
    case False
    with s1 show ?thesis by (simp add: start_assignment_def)
  qed
  show ?case
  proof (cases "assignment_complete asg1")
    case True
    with Suc.prems s1 have "a' = asg1" by (auto split: if_splits)
    with m1 show ?thesis by simp
  next
    case False
    with Suc.prems s1 obtain var vals where
      sel: "select_unassigned_variable cw doms1 asg1 = Inr var"
      and l: "backtrack_loop n cw var vals doms1 asg1 = Returned ((d', a'), r)"
      by (auto split: sum.splits if_splits)
    from select_unassigned_variable_unassigned[OF sel]
    have nn: "map_of asg1 var \<noteq> None" by (simp add: unassigned_def)
    have bt: "\<And>doms asg d' a' r. backtrack n cw doms asg = Returned ((d', a'), r) \<Longrightarrow>
      unassigned a' \<subseteq> unassigned (start_assignment cw asg) \<and>
      map fst a' = map fst (start_assignment cw asg)"
      by (rule Suc.IH)
    have "unassigned a' \<subseteq> unassigned asg1 \<and> map fst a' = map fst asg1"
      using bt l nn by (rule backtrack_loop_monotone)
    with m1 show ?thesis by auto
  qed
qed

lemma backtrack_loop_fuel:
  assumes bt: "\<And>doms asg. card (unassigned (start_assignment cw asg)) < n \<Longrightarrow>
      backtrack n cw doms asg \<noteq> OutOfFuel"
  shows "map_of asg var \<noteq> None \<Longrightarrow> card (unassigned asg - {var}) < n \<Longrightarrow>
         backtrack_loop n cw var vals doms asg \<noteq> OutOfFuel"
proof (induction vals arbitrary: doms asg)
  case Nil
  then show ?case by simp
next
  case (Cons "value" rest)
  let ?asgv = "dict_set asg var (Some value)"
  from Cons.prems(1) obtain old where old: "map_of asg var = Some old" by auto
  have kv: "map fst ?asgv = map fst asg" using old by (rule dict_set_keys)
  show ?case
  proof (cases "consistent cw ?asgv")
    case (Inl e)
    then show ?thesis by simp
  next
    case (Inr ok)
    show ?thesis
    proof (cases ok)
      case False
      show ?thesis
      proof (cases "remove_value doms var value")
        case (Inl e)
        with Inr False show ?thesis by simp
      next
        case r: (Inr doms1)
        have "backtrack_loop n cw var rest doms1 asg \<noteq> OutOfFuel"
          using Cons.prems by (rule Cons.IH)
        with Inr False r show ?thesis by simp
      qed
    next
      case True
      show ?thesis
      proof (cases "ac3 cw doms (Some (map (\<lambda>y. (y, var)) (neighbors cw var)))")
        case (Inl e)
        with Inr True show ?thesis by simp
      next
        case a: (Inr p)
        obtain doms1 inferences where p: "p = (doms1, inferences)" by (cases p)
        show ?thesis
        proof (cases "if inferences then inference_loop (map fst ?asgv) doms1 ?asgv
                      else Inr (doms1, ?asgv)")
          case (Inl e)
          with Inr True a p show ?thesis by simp
        next
          case i: (Inr q)
          obtain doms2 asg2 where q: "q = (doms2, asg2)" by (cases q)
          have a2: "unassigned asg2 \<subseteq> unassigned asg - {var} \<and> map fst asg2 = map fst asg"
          proof (cases inferences)
            case True
            with i q have "inference_loop (map fst ?asgv) doms1 ?asgv = Inr (doms2, asg2)" by simp
            from inference_loop_monotone[OF this] kv show ?thesis
              by (auto simp: unassigned_dict_set)
          next
            case False
            with i q kv show ?thesis by (auto simp: unassigned_dict_set)
          qed
          from old have "asg \<noteq> []" by auto
          with a2 have "asg2 \<noteq> []" by (metis map_is_Nil_conv)
          then have st2: "start_assignment cw asg2 = asg2" by (simp add: start_assignment_def)
          have fin: "finite (unassigned asg - {var})" using finite_unassigned by simp
          from a2 have "card (unassigned asg2) \<le> card (unassigned asg - {var})"
            by (intro card_mono[OF fin]) simp
          with Cons.prems(2) st2 have "card (unassigned (start_assignment cw asg2)) < n" by simp
          then have nf: "backtrack n cw doms2 asg2 \<noteq> OutOfFuel" by (rule bt)
          show ?thesis
          proof (cases "backtrack n cw doms2 asg2")
            case (Raised e)
            with Inr True a p i q show ?thesis by simp
          next
            case OutOfFuel
            with nf show ?thesis by simp
          next
            case (Returned res)
            obtain d3 a3 r3 where res: "res = ((d3, a3), r3)" by (cases res) auto
            from backtrack_monotone[OF Returned[unfolded res]] st2 a2
            have a3: "unassigned a3 \<subseteq> unassigned asg - {var}" "map fst a3 = map fst asg" by auto
            show ?thesis
            proof (cases r3)
              case (Some r)
              with Inr True a p i q Returned res show ?thesis by simp
            next
              case None
              show ?thesis
              proof (cases "remove_value d3 var value")
                case (Inl e)
                with Inr True a p i q Returned res None show ?thesis by simp
              next
                case rv: (Inr doms4)
                have k3: "map_of a3 var \<noteq> None"
                  using a3(2) old by (metis map_of_eq_None_iff option.distinct(1) set_map)
                from a3(1) have "card (unassigned a3 - {var}) \<le> card (unassigned asg - {var})"
                  by (intro card_mono[OF fin]) auto
                with Cons.prems(2) have c3: "card (unassigned a3 - {var}) < n" by simp
                have "backtrack_loop n cw var rest doms4 a3 \<noteq> OutOfFuel"
                  using k3 c3 by (rule Cons.IH)
                with Inr True a p i q Returned res None rv show ?thesis by simp
              qed
            qed
          qed
        qed
      qed
    qed
  qed
qed

lemma backtrack_fuel:
  "card (unassigned (start_assignment cw asg)) < n \<Longrightarrow> backtrack n cw doms asg \<noteq> OutOfFuel"
proof (induction n arbitrary: doms asg)
  case 0
  then show ?case by simp
next
  case (Suc n)
  let ?a0 = "start_assignment cw asg"
  let ?start = "if asg = [] then root_loop (variables cw) doms (map (\<lambda>var. (var, None)) (variables cw))
          else Inr (doms, asg)"
  show ?case
  proof (cases ?start)
    case (Inl e)
    then show ?thesis by simp
  next
    case (Inr p)
    obtain doms1 asg1 where p: "p = (doms1, asg1)" by (cases p)
    have m1: "unassigned asg1 \<subseteq> unassigned ?a0"
    proof (cases "asg = []")
      case True
      with Inr p have "root_loop (variables cw) doms (map (\<lambda>var. (var, None)) (variables cw))
          = Inr (doms1, asg1)" by simp
      from root_loop_monotone[OF this] True show ?thesis
        by (force simp: start_assignment_def)
    next
      case False
      with Inr p show ?thesis by (simp add: start_assignment_def)
    qed
    show ?thesis
    proof (cases "assignment_complete asg1")
      case True
      with Inr p show ?thesis by simp
    next
      case False
      show ?thesis
      proof (cases "select_unassigned_variable cw doms1 asg1")
        case (Inl e)
        with Inr p False show ?thesis by simp
      next
        case sel: (Inr var)
        show ?thesis
        proof (cases "order_domain_values cw doms1 var")
          case (Inl e)
          with Inr p False sel show ?thesis by simp
        next
          case odv: (Inr vals)
          from select_unassigned_variable_unassigned[OF sel]
          have u: "var \<in> unassigned asg1" .
          then have nn: "map_of asg1 var \<noteq> None" by (simp add: unassigned_def)
          have "card (unassigned asg1 - {var}) < card (unassigned asg1)"
            using u finite_unassigned by (intro card_Diff1_less)
          also have "\<dots> \<le> card (unassigned ?a0)"
            using m1 finite_unassigned by (intro card_mono)
          finally have c: "card (unassigned asg1 - {var}) < n" using Suc.prems by simp
          have bt: "\<And>doms asg. card (unassigned (start_assignment cw asg)) < n \<Longrightarrow>
              backtrack n cw doms asg \<noteq> OutOfFuel"
            by (rule Suc.IH)
          have "backtrack_loop n cw var vals doms1 asg1 \<noteq> OutOfFuel"
            using bt nn c by (rule backtrack_loop_fuel)
          with Inr p False sel odv show ?thesis by simp
        qed
      qed
    qed
  qed
qed

lemma solve_fuel_suffices: "solve cw \<noteq> OutOfFuel"
proof -
  have "unassigned (start_assignment cw []) \<subseteq> set (variables cw)"
    by (auto simp: unassigned_def start_assignment_def dest!: map_of_SomeD)
  then have "card (unassigned (start_assignment cw [])) \<le> card (set (variables cw))"
    by (intro card_mono) simp_all
  also have "\<dots> \<le> length (variables cw)" by (rule card_length)
  finally have "card (unassigned (start_assignment cw [])) < Suc (length (variables cw))" by simp
  then have "\<And>doms. backtrack (Suc (length (variables cw))) cw doms [] \<noteq> OutOfFuel"
    by (rule backtrack_fuel)
  then show ?thesis by (auto simp: solve_def split: sum.splits)
qed

text \<open>An assignment that the search returns is complete, and it is the dictionary itself.\<close>

lemma backtrack_loop_returns_complete:
  assumes bt: "\<And>doms asg st a. backtrack n cw doms asg = Returned (st, Some a) \<Longrightarrow>
      assignment_complete a \<and> snd st = a"
  shows "backtrack_loop n cw var vals doms asg = Returned (st, Some a) \<Longrightarrow>
         assignment_complete a \<and> snd st = a"
proof (induction vals arbitrary: doms asg)
  case Nil
  then show ?case by simp
next
  case (Cons "value" rest)
  from Cons.prems
  consider doms2 asg2 where "backtrack n cw doms2 asg2 = Returned (st, Some a)"
    | doms' asg' where "backtrack_loop n cw var rest doms' asg' = Returned (st, Some a)"
    by (auto split: sum.splits if_splits result.splits prod.splits option.splits)
  then show ?case
  proof cases
    case 1
    then show ?thesis by (rule bt)
  next
    case 2
    then show ?thesis by (rule Cons.IH)
  qed
qed

lemma backtrack_returns_complete:
  "backtrack n cw doms asg = Returned (st, Some a) \<Longrightarrow> assignment_complete a \<and> snd st = a"
proof (induction n arbitrary: doms asg st a)
  case 0
  then show ?case by simp
next
  case (Suc n)
  have bt: "\<And>doms asg st a. backtrack n cw doms asg = Returned (st, Some a) \<Longrightarrow>
      assignment_complete a \<and> snd st = a"
    by (rule Suc.IH)
  from Suc.prems
  consider "assignment_complete a \<and> snd st = a"
    | var vals doms1 asg1 where "backtrack_loop n cw var vals doms1 asg1 = Returned (st, Some a)"
    by (auto split: sum.splits if_splits prod.splits)
  then show ?case
  proof cases
    case 1
    then show ?thesis .
  next
    case 2
    with bt show ?thesis by (rule backtrack_loop_returns_complete)
  qed
qed

lemma solve_returns_complete:
  assumes "solve cw = Returned (st, Some a)"
  shows "assignment_complete a \<and> snd st = a"
proof -
  from assms obtain doms' where
    "backtrack (Suc (length (variables cw))) cw doms' [] = Returned (st, Some a)"
    by (auto simp: solve_def simp del: backtrack.simps split: sum.splits prod.splits)
  then show ?thesis by (rule backtrack_returns_complete)
qed

subsection \<open>Distinct words in a returned assignment\<close>

text \<open>
  The claim C2 as stated fails. On \<open>twin_puzzle\<close> the two slots share no cell and both
  receive the only word of the vocabulary: nothing in the source compares the words of
  variables that are not neighbours. On \<open>tree_puzzle\<close> the neighbours \<open>slot_Y\<close>
  and \<open>slot_W\<close> both receive \<open>TREE\<close>: \<open>slot_W\<close> is committed to \<open>TREE\<close> by
  the candidate loop, and once \<open>slot_X\<close> is committed to \<open>ACT\<close> the propagation
  leaves \<open>slot_Y\<close> with the single word \<open>TREE\<close>, which forced inference assigns
  without a test of consistency.
\<close>

theorem solve_repeats_word:
  "solve twin_puzzle =
     Returned (([(slot_P, []), (slot_Q, [])], [(slot_P, Some ''CAT''), (slot_Q, Some ''CAT'')]),
               Some [(slot_P, Some ''CAT''), (slot_Q, Some ''CAT'')]) \<and>
   slot_P \<noteq> slot_Q \<and> neighbors twin_puzzle slot_P = [] \<and>
   solve tree_puzzle = Returned ((tree_final_domains, tree_returned), Some tree_returned) \<and>
   map_of tree_returned slot_Y = Some (Some ''TREE'') \<and>
   map_of tree_returned slot_W = Some (Some ''TREE'') \<and>
   slot_Y \<noteq> slot_W \<and> slot_W \<in> set (neighbors tree_puzzle slot_Y)"
  by code_simp

text \<open>
  On \<open>tree_puzzle\<close> the domain of \<open>slot_Y\<close> is empty when the search returns, and
  the candidate \<open>TREE\<close> of \<open>slot_Y\<close> would not have passed the test of the candidate
  loop.
\<close>

lemma tree_puzzle_forced_word:
  "wf_crossword tree_puzzle \<and>
   map_of tree_final_domains slot_Y = Some [] \<and>
   consistent tree_puzzle
     (dict_set [(slot_U, Some ''MA''), (slot_X, Some ''ACT''), (slot_Y, None),
                (slot_W, Some ''TREE'')] slot_Y (Some ''TREE'')) = Inr False"
  by code_simp

text \<open>An assignment that passes \<open>consistent\<close> has different words on neighbouring variables.\<close>

lemma words_conflict_False:
  "words_conflict ov x_word y_word = Inr False \<Longrightarrow> x_word \<noteq> y_word"
  by (auto simp: words_conflict_def split: option.splits sum.splits prod.splits)

lemma consistent_neighbors_True:
  "consistent_neighbors cw asg x x_word ys = Inr True \<Longrightarrow> y \<in> set ys \<Longrightarrow>
   map_of asg y = Some (Some y_word) \<Longrightarrow>
   words_conflict (overlaps cw x y) x_word y_word = Inr False"
proof (induction ys)
  case Nil
  then show ?case by simp
next
  case (Cons u ys)
  from Cons.prems(1) obtain a where a: "map_of asg u = Some a"
    by (auto simp: dict_get_def split: option.splits)
  show ?case
  proof (cases a)
    case None
    with a Cons.prems have "consistent_neighbors cw asg x x_word ys = Inr True" "y \<in> set ys"
      by (auto simp: dict_get_def)
    then show ?thesis using Cons.prems(3) by (rule Cons.IH)
  next
    case (Some u_word)
    with a Cons.prems(1)
    have c: "words_conflict (overlaps cw x u) x_word u_word = Inr False"
      and r: "consistent_neighbors cw asg x x_word ys = Inr True"
      by (auto simp: dict_get_def split: sum.splits if_splits)
    show ?thesis
    proof (cases "y = u")
      case True
      with a Some Cons.prems(3) c show ?thesis by simp
    next
      case False
      with Cons.prems(2) have "y \<in> set ys" by simp
      with r show ?thesis using Cons.prems(3) by (rule Cons.IH)
    qed
  qed
qed

lemma consistent_loop_True:
  "consistent_loop cw asg xs = Inr True \<Longrightarrow> x \<in> set xs \<Longrightarrow>
   map_of asg x = Some (Some x_word) \<Longrightarrow>
   consistent_neighbors cw asg x x_word (neighbors cw x) = Inr True"
proof (induction xs)
  case Nil
  then show ?case by simp
next
  case (Cons u xs)
  from Cons.prems(1) obtain a where a: "map_of asg u = Some a"
    by (auto simp: dict_get_def split: option.splits)
  show ?case
  proof (cases a)
    case None
    with a Cons.prems have "consistent_loop cw asg xs = Inr True" "x \<in> set xs"
      by (auto simp: dict_get_def)
    then show ?thesis using Cons.prems(3) by (rule Cons.IH)
  next
    case (Some u_word)
    with a Cons.prems(1)
    have c: "consistent_neighbors cw asg u u_word (neighbors cw u) = Inr True"
      and r: "consistent_loop cw asg xs = Inr True"
      by (auto simp: dict_get_def split: sum.splits if_splits)
    show ?thesis
    proof (cases "x = u")
      case True
      with a Some Cons.prems(3) c show ?thesis by simp
    next
      case False
      with Cons.prems(2) have "x \<in> set xs" by simp
      with r show ?thesis using Cons.prems(3) by (rule Cons.IH)
    qed
  qed
qed

lemma consistent_True_distinct:
  assumes "consistent cw asg = Inr True"
    and "map_of asg x = Some (Some x_word)" and "y \<in> set (neighbors cw x)"
    and "map_of asg y = Some (Some y_word)"
  shows "x_word \<noteq> y_word"
proof -
  from assms(2) have xin: "x \<in> set (map fst asg)"
    by (metis map_of_eq_None_iff option.distinct(1) set_map)
  from assms(1) have "consistent_loop cw asg (map fst asg) = Inr True"
    by (simp add: consistent_def)
  then have "consistent_neighbors cw asg x x_word (neighbors cw x) = Inr True"
    using xin assms(2) by (rule consistent_loop_True)
  then have "words_conflict (overlaps cw x y) x_word y_word = Inr False"
    using assms(3,4) by (rule consistent_neighbors_True)
  then show ?thesis by (rule words_conflict_False)
qed

lemma checked_distinct_consistent:
  "consistent cw asg = Inr True \<Longrightarrow> checked_distinct cw doms asg"
  unfolding checked_distinct_def using consistent_True_distinct by blast

lemma checked_distinct_shrink:
  assumes "checked_distinct cw doms asg"
    and "\<And>v. map_of doms v = Some [] \<Longrightarrow> map_of doms' v = Some []"
  shows "checked_distinct cw doms' asg"
  using assms unfolding checked_distinct_def by blast

lemma checked_distinct_pop:
  assumes "checked_distinct cw doms asg"
  shows "checked_distinct cw (dict_set doms var []) (dict_set asg var (Some w))"
  unfolding checked_distinct_def
proof (intro allI impI)
  fix x y x_word y_word
  assume x: "map_of (dict_set asg var (Some w)) x = Some (Some x_word)"
    and n: "y \<in> set (neighbors cw x)"
    and y: "map_of (dict_set asg var (Some w)) y = Some (Some y_word)"
    and dx: "map_of (dict_set doms var []) x \<noteq> Some []"
    and dy: "map_of (dict_set doms var []) y \<noteq> Some []"
  from dx dy have ne: "x \<noteq> var" "y \<noteq> var" by (auto simp: map_of_dict_set)
  with x y dx dy have "map_of asg x = Some (Some x_word)" "map_of asg y = Some (Some y_word)"
    "map_of doms x \<noteq> Some []" "map_of doms y \<noteq> Some []"
    by (simp_all add: map_of_dict_set)
  with assms n show "x_word \<noteq> y_word" unfolding checked_distinct_def by blast
qed

lemma revise_keeps_empty:
  assumes "revise cw doms x y = Inr (doms', revised)" and "map_of doms v = Some []"
  shows "map_of doms' v = Some []"
proof -
  from assms(1) obtain dx cpy where dx: "map_of doms x = Some dx"
    and loop: "revise_loop (overlaps cw x y) doms y dx (dx, False) = Inr (cpy, revised)"
    and d': "doms' = dict_set doms x cpy"
    by (auto simp: revise_def dict_get_def split: option.splits sum.splits)
  from revise_loop_length[OF loop] have "length cpy \<le> length dx" by simp
  with dx assms(2) d' show ?thesis by (cases "v = x") (simp_all add: map_of_dict_set)
qed

lemma ac3_loop_keeps_empty:
  "ac3_loop cw doms arcs = Inr (doms', b) \<Longrightarrow> map_of doms v = Some [] \<Longrightarrow>
   map_of doms' v = Some []"
proof (induction cw doms arcs rule: ac3_loop.induct)
  case (1 cw doms arcs)
  note res = "1.prems"(1) and e = "1.prems"(2)
  show ?case
  proof (cases "0 < length arcs")
    case False
    with res have "doms' = doms" by (subst (asm) ac3_loop.simps) simp
    with e show ?thesis by simp
  next
    case True
    from res True obtain doms1 revised where
      r: "revise cw doms (fst (last arcs)) (snd (last arcs)) = Inr (doms1, revised)"
      by (subst (asm) ac3_loop.simps) (auto split: sum.splits)
    have e1: "map_of doms1 v = Some []" using r e by (rule revise_keeps_empty)
    show ?thesis
    proof (cases revised)
      case False
      from res True r False have "ac3_loop cw doms1 (butlast arcs) = Inr (doms', b)"
        by (subst (asm) ac3_loop.simps) simp
      then show ?thesis using e1 by (rule "1.IH"(2)[OF True r refl False])
    next
      case rv: True
      from res True r rv obtain dx where
        g: "dict_get doms1 (fst (last arcs)) = Inr dx"
        by (subst (asm) ac3_loop.simps) (auto split: sum.splits)
      show ?thesis
      proof (cases "length dx = 0")
        case z: True
        from res True r rv g z have "doms' = doms1"
          by (subst (asm) ac3_loop.simps) simp
        with e1 show ?thesis by simp
      next
        case nz: False
        from res True r rv g nz obtain ns where
          sr: "set_remove (snd (last arcs)) (neighbors cw (fst (last arcs))) = Inr ns"
          by (subst (asm) ac3_loop.simps) (auto split: sum.splits)
        from res True r rv g nz sr
        have "ac3_loop cw doms1 (butlast arcs @ map (\<lambda>z. (z, fst (last arcs))) ns) = Inr (doms', b)"
          by (subst (asm) ac3_loop.simps) simp
        then show ?thesis using e1 by (rule "1.IH"(1)[OF True r refl rv g nz sr])
      qed
    qed
  qed
qed

lemma ac3_checked_distinct:
  assumes "ac3 cw doms arcs = Inr (doms', b)" and "checked_distinct cw doms asg"
  shows "checked_distinct cw doms' asg"
proof (rule checked_distinct_shrink[OF assms(2)])
  fix v assume "map_of doms v = Some []"
  with assms(1) show "map_of doms' v = Some []"
    unfolding ac3_def by (rule ac3_loop_keeps_empty)
qed

lemma inference_loop_checked_distinct:
  "inference_loop ks doms asg = Inr (doms', asg') \<Longrightarrow> checked_distinct cw doms asg \<Longrightarrow>
   checked_distinct cw doms' asg'"
proof (induction ks arbitrary: doms asg)
  case Nil
  then show ?case by simp
next
  case (Cons k ks)
  from Cons.prems(1)
  consider "inference_loop ks doms asg = Inr (doms', asg')"
    | w where "inference_loop ks (dict_set doms k []) (dict_set asg k (Some w)) = Inr (doms', asg')"
    by (auto split: sum.splits option.splits list.splits)
  then show ?case
  proof cases
    case 1
    then show ?thesis using Cons.prems(2) by (rule Cons.IH)
  next
    case 2
    then show ?thesis using checked_distinct_pop[OF Cons.prems(2)] by (rule Cons.IH)
  qed
qed

lemma root_loop_checked_distinct:
  "root_loop ks doms asg = Inr (doms', asg') \<Longrightarrow> checked_distinct cw doms asg \<Longrightarrow>
   checked_distinct cw doms' asg'"
proof (induction ks arbitrary: doms asg)
  case Nil
  then show ?case by simp
next
  case (Cons k ks)
  from Cons.prems(1)
  consider "root_loop ks doms asg = Inr (doms', asg')"
    | w where "root_loop ks (dict_set doms k []) (dict_set asg k (Some w)) = Inr (doms', asg')"
    by (auto split: sum.splits option.splits list.splits)
  then show ?case
  proof cases
    case 1
    then show ?thesis using Cons.prems(2) by (rule Cons.IH)
  next
    case 2
    then show ?thesis using checked_distinct_pop[OF Cons.prems(2)] by (rule Cons.IH)
  qed
qed

lemma checked_distinct_unassigned:
  "checked_distinct cw doms (map (\<lambda>var. (var, None)) vs)"
  by (auto simp: checked_distinct_def dest!: map_of_SomeD)

lemma backtrack_loop_checked_distinct:
  assumes bt: "\<And>doms asg st a. backtrack n cw doms asg = Returned (st, Some a) \<Longrightarrow>
      checked_distinct cw doms asg \<Longrightarrow> checked_distinct cw (fst st) a"
  shows "backtrack_loop n cw var vals doms asg = Returned (st, Some a) \<Longrightarrow>
         checked_distinct cw (fst st) a"
proof (induction vals arbitrary: doms asg)
  case Nil
  then show ?case by simp
next
  case (Cons "value" rest)
  let ?asg = "dict_set asg var (Some value)"
  from Cons.prems
  consider doms1 inferences doms2 asg2 where
      "consistent cw ?asg = Inr True"
      "ac3 cw doms (Some (map (\<lambda>y. (y, var)) (neighbors cw var))) = Inr (doms1, inferences)"
      "(if inferences then inference_loop (map fst ?asg) doms1 ?asg else Inr (doms1, ?asg)) =
         Inr (doms2, asg2)"
      "backtrack n cw doms2 asg2 = Returned (st, Some a)"
    | doms' asg' where "backtrack_loop n cw var rest doms' asg' = Returned (st, Some a)"
    by (auto split: sum.splits if_splits result.splits prod.splits option.splits)
  then show ?case
  proof cases
    case 1
    from 1(1) have "checked_distinct cw doms ?asg" by (rule checked_distinct_consistent)
    with 1(2) have c1: "checked_distinct cw doms1 ?asg" by (rule ac3_checked_distinct)
    have "checked_distinct cw doms2 asg2"
    proof (cases inferences)
      case True
      with 1(3) have "inference_loop (map fst ?asg) doms1 ?asg = Inr (doms2, asg2)" by simp
      then show ?thesis using c1 by (rule inference_loop_checked_distinct)
    next
      case False
      with 1(3) c1 show ?thesis by simp
    qed
    with 1(4) show ?thesis by (rule bt)
  next
    case 2
    then show ?thesis by (rule Cons.IH)
  qed
qed

lemma backtrack_checked_distinct:
  "backtrack n cw doms asg = Returned (st, Some a) \<Longrightarrow> checked_distinct cw doms asg \<Longrightarrow>
   checked_distinct cw (fst st) a"
proof (induction n arbitrary: doms asg st a)
  case 0
  then show ?case by simp
next
  case (Suc n)
  have bt: "\<And>doms asg st a. backtrack n cw doms asg = Returned (st, Some a) \<Longrightarrow>
      checked_distinct cw doms asg \<Longrightarrow> checked_distinct cw (fst st) a"
    by (rule Suc.IH)
  obtain doms1 asg1 where
    start: "(if asg = [] then root_loop (variables cw) doms (map (\<lambda>var. (var, None)) (variables cw))
             else Inr (doms, asg)) = Inr (doms1, asg1)"
    using Suc.prems(1) by (auto split: sum.splits)
  have c1: "checked_distinct cw doms1 asg1"
  proof (cases "asg = []")
    case True
    with start have "root_loop (variables cw) doms (map (\<lambda>var. (var, None)) (variables cw)) =
        Inr (doms1, asg1)" by simp
    then show ?thesis using checked_distinct_unassigned by (rule root_loop_checked_distinct)
  next
    case False
    with start Suc.prems(2) show ?thesis by simp
  qed
  have "backtrack (Suc n) cw doms asg =
      (if assignment_complete asg1 then Returned ((doms1, asg1), Some asg1)
       else (case select_unassigned_variable cw doms1 asg1 of
               Inl e \<Rightarrow> Raised e
             | Inr var \<Rightarrow>
                 (case order_domain_values cw doms1 var of
                    Inl e \<Rightarrow> Raised e
                  | Inr vals \<Rightarrow> backtrack_loop n cw var vals doms1 asg1)))"
    by (simp only: backtrack.simps start sum.case prod.case)
  with Suc.prems(1)
  consider "st = (doms1, asg1)" "a = asg1"
    | var vals where "backtrack_loop n cw var vals doms1 asg1 = Returned (st, Some a)"
    by (auto split: sum.splits if_splits)
  then show ?case
  proof cases
    case 1
    with c1 show ?thesis by simp
  next
    case 2
    with bt show ?thesis by (rule backtrack_loop_checked_distinct)
  qed
qed

lemma solve_checked_distinct:
  assumes "solve cw = Returned (st, Some a)"
  shows "checked_distinct cw (fst st) a"
proof -
  from assms obtain doms' where
    "backtrack (Suc (length (variables cw))) cw doms' [] = Returned (st, Some a)"
    by (auto simp: solve_def simp del: backtrack.simps split: sum.splits prod.splits)
  moreover have "checked_distinct cw doms' []" by (simp add: checked_distinct_def)
  ultimately show ?thesis by (rule backtrack_checked_distinct)
qed

text \<open>
  Claim C2, as the source has it. In an assignment returned by \<open>solve\<close>, two neighbouring
  variables hold different words whenever the domains of both are not empty when
  \<open>solve\<close> returns. Forced inference empties the domain of every variable it assigns, so
  a variable whose domain is not empty at the return was assigned by the candidate loop,
  whose candidates pass \<open>consistent\<close> before they are committed. Variables that share
  no cell may hold the same word.
\<close>

theorem solve_neighbors_distinct:
  assumes "solve cw = Returned ((doms, asg'), Some asg)"
    and "map_of asg x = Some (Some x_word)" and "y \<in> set (neighbors cw x)"
    and "map_of asg y = Some (Some y_word)"
    and "map_of doms x \<noteq> Some []" and "map_of doms y \<noteq> Some []"
  shows "x_word \<noteq> y_word"
proof -
  from assms(1) have "checked_distinct cw (fst (doms, asg')) asg"
    by (rule solve_checked_distinct)
  with assms(2-6) show ?thesis unfolding checked_distinct_def by auto
qed

theorem solve_neighbors_distinct_witness:
  "solve pets_puzzle = Returned ((pets_final_domains, pets_returned), Some pets_returned) \<and>
   slot_B \<in> set (neighbors pets_puzzle slot_A) \<and>
   map_of pets_final_domains slot_A = Some [''CAT'', ''DOG''] \<and>
   map_of pets_final_domains slot_B = Some [''ART'', ''OWL''] \<and>
   ''CAT'' \<noteq> ''ART''"
proof -
  have s: "solve pets_puzzle = Returned ((pets_final_domains, pets_returned), Some pets_returned)"
    by code_simp
  have a: "map_of pets_returned slot_A = Some (Some ''CAT'')" by code_simp
  have n: "slot_B \<in> set (neighbors pets_puzzle slot_A)" by code_simp
  have b: "map_of pets_returned slot_B = Some (Some ''ART'')" by code_simp
  have da: "map_of pets_final_domains slot_A = Some [''CAT'', ''DOG'']" by code_simp
  have db: "map_of pets_final_domains slot_B = Some [''ART'', ''OWL'']" by code_simp
  from da have na: "map_of pets_final_domains slot_A \<noteq> Some []" by simp
  from db have nb: "map_of pets_final_domains slot_B \<noteq> Some []" by simp
  have c: "''CAT'' \<noteq> ''ART''" by (rule solve_neighbors_distinct[OF s a n b na nb])
  show ?thesis by (rule conjI[OF s conjI[OF n conjI[OF da conjI[OF db c]]]])
qed

end
